theory Spec2Isabelle
  imports Main "HOL-Library.Sublist"
begin

section \<open>JavaScript strings\<close>

text \<open>
  The tracker lives in \<^verbatim>\<open>frontend/src/services/eventTracker.ts\<close>. A JavaScript string is a
  sequence of UTF-16 code units, modelled as a list of natural numbers. \<open>utf16\<close> gives the
  code units of a string literal of the source, all of whose characters are ASCII.
\<close>

type_synonym jstring = "nat list"

definition utf16 :: "string \<Rightarrow> jstring" where
  "utf16 s = map of_char s"

text \<open>
  \<^verbatim>\<open>String.prototype.toUpperCase\<close> reads the string as code points (a high surrogate
  followed by a low surrogate is one code point, any other code unit stands for itself),
  replaces every code point by its full uppercase mapping, and writes the result back as
  code units. The mapping is the one of the Unicode Character Database, version 14.0: the
  unconditional entries of SpecialCasing (\<open>special_upper\<close>), then the simple uppercase
  mappings (\<open>simple_upper\<close>), else the code point itself. The simple mappings are stored
  as runs: \<open>(lo, hi, stride, target)\<close> sends \<open>lo\<close>, \<open>lo + stride\<close>, ..., \<open>hi\<close> to
  \<open>target\<close>, \<open>target + stride\<close>, ... On ASCII only \<^verbatim>\<open>a\<close>..\<^verbatim>\<open>z\<close> change.
\<close>

fun codepoints :: "jstring \<Rightarrow> nat list" where
  "codepoints [] = []"
| "codepoints [u] = [u]"
| "codepoints (u # v # us) =
     (if 0xD800 \<le> u \<and> u \<le> 0xDBFF \<and> 0xDC00 \<le> v \<and> v \<le> 0xDFFF
      then (0x10000 + (u - 0xD800) * 0x400 + (v - 0xDC00)) # codepoints us
      else u # codepoints (v # us))"

definition units_of :: "nat \<Rightarrow> jstring" where
  "units_of cp =
     (if cp < 0x10000 then [cp]
      else [0xD800 + (cp - 0x10000) div 0x400, 0xDC00 + (cp - 0x10000) mod 0x400])"

definition special_upper :: "(nat \<times> nat list) list" where
  "special_upper =
     [
      (0x00DF, [0x0053, 0x0053]), (0x0149, [0x02BC, 0x004E]), (0x01F0, [0x004A, 0x030C]),
      (0x0390, [0x0399, 0x0308, 0x0301]), (0x03B0, [0x03A5, 0x0308, 0x0301]), (0x0587, [0x0535, 0x0552]),
      (0x1E96, [0x0048, 0x0331]), (0x1E97, [0x0054, 0x0308]), (0x1E98, [0x0057, 0x030A]),
      (0x1E99, [0x0059, 0x030A]), (0x1E9A, [0x0041, 0x02BE]), (0x1F50, [0x03A5, 0x0313]),
      (0x1F52, [0x03A5, 0x0313, 0x0300]), (0x1F54, [0x03A5, 0x0313, 0x0301]), (0x1F56, [0x03A5, 0x0313, 0x0342]),
      (0x1F80, [0x1F08, 0x0399]), (0x1F81, [0x1F09, 0x0399]), (0x1F82, [0x1F0A, 0x0399]),
      (0x1F83, [0x1F0B, 0x0399]), (0x1F84, [0x1F0C, 0x0399]), (0x1F85, [0x1F0D, 0x0399]),
      (0x1F86, [0x1F0E, 0x0399]), (0x1F87, [0x1F0F, 0x0399]), (0x1F88, [0x1F08, 0x0399]),
      (0x1F89, [0x1F09, 0x0399]), (0x1F8A, [0x1F0A, 0x0399]), (0x1F8B, [0x1F0B, 0x0399]),
      (0x1F8C, [0x1F0C, 0x0399]), (0x1F8D, [0x1F0D, 0x0399]), (0x1F8E, [0x1F0E, 0x0399]),
      (0x1F8F, [0x1F0F, 0x0399]), (0x1F90, [0x1F28, 0x0399]), (0x1F91, [0x1F29, 0x0399]),
      (0x1F92, [0x1F2A, 0x0399]), (0x1F93, [0x1F2B, 0x0399]), (0x1F94, [0x1F2C, 0x0399]),
      (0x1F95, [0x1F2D, 0x0399]), (0x1F96, [0x1F2E, 0x0399]), (0x1F97, [0x1F2F, 0x0399]),
      (0x1F98, [0x1F28, 0x0399]), (0x1F99, [0x1F29, 0x0399]), (0x1F9A, [0x1F2A, 0x0399]),
      (0x1F9B, [0x1F2B, 0x0399]), (0x1F9C, [0x1F2C, 0x0399]), (0x1F9D, [0x1F2D, 0x0399]),
      (0x1F9E, [0x1F2E, 0x0399]), (0x1F9F, [0x1F2F, 0x0399]), (0x1FA0, [0x1F68, 0x0399]),
      (0x1FA1, [0x1F69, 0x0399]), (0x1FA2, [0x1F6A, 0x0399]), (0x1FA3, [0x1F6B, 0x0399]),
      (0x1FA4, [0x1F6C, 0x0399]), (0x1FA5, [0x1F6D, 0x0399]), (0x1FA6, [0x1F6E, 0x0399]),
      (0x1FA7, [0x1F6F, 0x0399]), (0x1FA8, [0x1F68, 0x0399]), (0x1FA9, [0x1F69, 0x0399]),
      (0x1FAA, [0x1F6A, 0x0399]), (0x1FAB, [0x1F6B, 0x0399]), (0x1FAC, [0x1F6C, 0x0399]),
      (0x1FAD, [0x1F6D, 0x0399]), (0x1FAE, [0x1F6E, 0x0399]), (0x1FAF, [0x1F6F, 0x0399]),
      (0x1FB2, [0x1FBA, 0x0399]), (0x1FB3, [0x0391, 0x0399]), (0x1FB4, [0x0386, 0x0399]),
      (0x1FB6, [0x0391, 0x0342]), (0x1FB7, [0x0391, 0x0342, 0x0399]), (0x1FBC, [0x0391, 0x0399]),
      (0x1FC2, [0x1FCA, 0x0399]), (0x1FC3, [0x0397, 0x0399]), (0x1FC4, [0x0389, 0x0399]),
      (0x1FC6, [0x0397, 0x0342]), (0x1FC7, [0x0397, 0x0342, 0x0399]), (0x1FCC, [0x0397, 0x0399]),
      (0x1FD2, [0x0399, 0x0308, 0x0300]), (0x1FD3, [0x0399, 0x0308, 0x0301]), (0x1FD6, [0x0399, 0x0342]),
      (0x1FD7, [0x0399, 0x0308, 0x0342]), (0x1FE2, [0x03A5, 0x0308, 0x0300]), (0x1FE3, [0x03A5, 0x0308, 0x0301]),
      (0x1FE4, [0x03A1, 0x0313]), (0x1FE6, [0x03A5, 0x0342]), (0x1FE7, [0x03A5, 0x0308, 0x0342]),
      (0x1FF2, [0x1FFA, 0x0399]), (0x1FF3, [0x03A9, 0x0399]), (0x1FF4, [0x038F, 0x0399]),
      (0x1FF6, [0x03A9, 0x0342]), (0x1FF7, [0x03A9, 0x0342, 0x0399]), (0x1FFC, [0x03A9, 0x0399]),
      (0xFB00, [0x0046, 0x0046]), (0xFB01, [0x0046, 0x0049]), (0xFB02, [0x0046, 0x004C]),
      (0xFB03, [0x0046, 0x0046, 0x0049]), (0xFB04, [0x0046, 0x0046, 0x004C]), (0xFB05, [0x0053, 0x0054]),
      (0xFB06, [0x0053, 0x0054]), (0xFB13, [0x0544, 0x0546]), (0xFB14, [0x0544, 0x0535]),
      (0xFB15, [0x0544, 0x053B]), (0xFB16, [0x054E, 0x0546]), (0xFB17, [0x0544, 0x053D])
     ]"

definition simple_upper :: "(nat \<times> nat \<times> nat \<times> nat) list" where
  "simple_upper =
     [
      (0x00B5, 0x00B5, 1, 0x039C), (0x00E0, 0x00F6, 1, 0x00C0), (0x00F8, 0x00FE, 1, 0x00D8),
      (0x00FF, 0x00FF, 1, 0x0178), (0x0101, 0x012F, 2, 0x0100), (0x0131, 0x0131, 1, 0x0049),
      (0x0133, 0x0137, 2, 0x0132), (0x013A, 0x0148, 2, 0x0139), (0x014B, 0x0177, 2, 0x014A),
      (0x017A, 0x017E, 2, 0x0179), (0x017F, 0x017F, 1, 0x0053), (0x0180, 0x0180, 1, 0x0243),
      (0x0183, 0x0185, 2, 0x0182), (0x0188, 0x0188, 1, 0x0187), (0x018C, 0x018C, 1, 0x018B),
      (0x0192, 0x0192, 1, 0x0191), (0x0195, 0x0195, 1, 0x01F6), (0x0199, 0x0199, 1, 0x0198),
      (0x019A, 0x019A, 1, 0x023D), (0x019E, 0x019E, 1, 0x0220), (0x01A1, 0x01A5, 2, 0x01A0),
      (0x01A8, 0x01A8, 1, 0x01A7), (0x01AD, 0x01AD, 1, 0x01AC), (0x01B0, 0x01B0, 1, 0x01AF),
      (0x01B4, 0x01B6, 2, 0x01B3), (0x01B9, 0x01B9, 1, 0x01B8), (0x01BD, 0x01BD, 1, 0x01BC),
      (0x01BF, 0x01BF, 1, 0x01F7), (0x01C5, 0x01C5, 1, 0x01C4), (0x01C6, 0x01C6, 1, 0x01C4),
      (0x01C8, 0x01C8, 1, 0x01C7), (0x01C9, 0x01C9, 1, 0x01C7), (0x01CB, 0x01CB, 1, 0x01CA),
      (0x01CC, 0x01CC, 1, 0x01CA), (0x01CE, 0x01DC, 2, 0x01CD), (0x01DD, 0x01DD, 1, 0x018E),
      (0x01DF, 0x01EF, 2, 0x01DE), (0x01F2, 0x01F2, 1, 0x01F1), (0x01F3, 0x01F3, 1, 0x01F1),
      (0x01F5, 0x01F5, 1, 0x01F4), (0x01F9, 0x021F, 2, 0x01F8), (0x0223, 0x0233, 2, 0x0222),
      (0x023C, 0x023C, 1, 0x023B), (0x023F, 0x0240, 1, 0x2C7E), (0x0242, 0x0242, 1, 0x0241),
      (0x0247, 0x024F, 2, 0x0246), (0x0250, 0x0250, 1, 0x2C6F), (0x0251, 0x0251, 1, 0x2C6D),
      (0x0252, 0x0252, 1, 0x2C70), (0x0253, 0x0253, 1, 0x0181), (0x0254, 0x0254, 1, 0x0186),
      (0x0256, 0x0257, 1, 0x0189), (0x0259, 0x0259, 1, 0x018F), (0x025B, 0x025B, 1, 0x0190),
      (0x025C, 0x025C, 1, 0xA7AB), (0x0260, 0x0260, 1, 0x0193), (0x0261, 0x0261, 1, 0xA7AC),
      (0x0263, 0x0263, 1, 0x0194), (0x0265, 0x0265, 1, 0xA78D), (0x0266, 0x0266, 1, 0xA7AA),
      (0x0268, 0x0268, 1, 0x0197), (0x0269, 0x0269, 1, 0x0196), (0x026A, 0x026A, 1, 0xA7AE),
      (0x026B, 0x026B, 1, 0x2C62), (0x026C, 0x026C, 1, 0xA7AD), (0x026F, 0x026F, 1, 0x019C),
      (0x0271, 0x0271, 1, 0x2C6E), (0x0272, 0x0272, 1, 0x019D), (0x0275, 0x0275, 1, 0x019F),
      (0x027D, 0x027D, 1, 0x2C64), (0x0280, 0x0280, 1, 0x01A6), (0x0282, 0x0282, 1, 0xA7C5),
      (0x0283, 0x0283, 1, 0x01A9), (0x0287, 0x0287, 1, 0xA7B1), (0x0288, 0x0288, 1, 0x01AE),
      (0x0289, 0x0289, 1, 0x0244), (0x028A, 0x028B, 1, 0x01B1), (0x028C, 0x028C, 1, 0x0245),
      (0x0292, 0x0292, 1, 0x01B7), (0x029D, 0x029D, 1, 0xA7B2), (0x029E, 0x029E, 1, 0xA7B0),
      (0x0345, 0x0345, 1, 0x0399), (0x0371, 0x0373, 2, 0x0370), (0x0377, 0x0377, 1, 0x0376),
      (0x037B, 0x037D, 1, 0x03FD), (0x03AC, 0x03AC, 1, 0x0386), (0x03AD, 0x03AF, 1, 0x0388),
      (0x03B1, 0x03C1, 1, 0x0391), (0x03C2, 0x03C2, 1, 0x03A3), (0x03C3, 0x03CB, 1, 0x03A3),
      (0x03CC, 0x03CC, 1, 0x038C), (0x03CD, 0x03CE, 1, 0x038E), (0x03D0, 0x03D0, 1, 0x0392),
      (0x03D1, 0x03D1, 1, 0x0398), (0x03D5, 0x03D5, 1, 0x03A6), (0x03D6, 0x03D6, 1, 0x03A0),
      (0x03D7, 0x03D7, 1, 0x03CF), (0x03D9, 0x03EF, 2, 0x03D8), (0x03F0, 0x03F0, 1, 0x039A),
      (0x03F1, 0x03F1, 1, 0x03A1), (0x03F2, 0x03F2, 1, 0x03F9), (0x03F3, 0x03F3, 1, 0x037F),
      (0x03F5, 0x03F5, 1, 0x0395), (0x03F8, 0x03F8, 1, 0x03F7), (0x03FB, 0x03FB, 1, 0x03FA),
      (0x0430, 0x044F, 1, 0x0410), (0x0450, 0x045F, 1, 0x0400), (0x0461, 0x0481, 2, 0x0460),
      (0x048B, 0x04BF, 2, 0x048A), (0x04C2, 0x04CE, 2, 0x04C1), (0x04CF, 0x04CF, 1, 0x04C0),
      (0x04D1, 0x052F, 2, 0x04D0), (0x0561, 0x0586, 1, 0x0531), (0x10D0, 0x10FA, 1, 0x1C90),
      (0x10FD, 0x10FF, 1, 0x1CBD), (0x13F8, 0x13FD, 1, 0x13F0), (0x1C80, 0x1C80, 1, 0x0412),
      (0x1C81, 0x1C81, 1, 0x0414), (0x1C82, 0x1C82, 1, 0x041E), (0x1C83, 0x1C84, 1, 0x0421),
      (0x1C85, 0x1C85, 1, 0x0422), (0x1C86, 0x1C86, 1, 0x042A), (0x1C87, 0x1C87, 1, 0x0462),
      (0x1C88, 0x1C88, 1, 0xA64A), (0x1D79, 0x1D79, 1, 0xA77D), (0x1D7D, 0x1D7D, 1, 0x2C63),
      (0x1D8E, 0x1D8E, 1, 0xA7C6), (0x1E01, 0x1E95, 2, 0x1E00), (0x1E9B, 0x1E9B, 1, 0x1E60),
      (0x1EA1, 0x1EFF, 2, 0x1EA0), (0x1F00, 0x1F07, 1, 0x1F08), (0x1F10, 0x1F15, 1, 0x1F18),
      (0x1F20, 0x1F27, 1, 0x1F28), (0x1F30, 0x1F37, 1, 0x1F38), (0x1F40, 0x1F45, 1, 0x1F48),
      (0x1F51, 0x1F57, 2, 0x1F59), (0x1F60, 0x1F67, 1, 0x1F68), (0x1F70, 0x1F71, 1, 0x1FBA),
      (0x1F72, 0x1F75, 1, 0x1FC8), (0x1F76, 0x1F77, 1, 0x1FDA), (0x1F78, 0x1F79, 1, 0x1FF8),
      (0x1F7A, 0x1F7B, 1, 0x1FEA), (0x1F7C, 0x1F7D, 1, 0x1FFA), (0x1FB0, 0x1FB1, 1, 0x1FB8),
      (0x1FBE, 0x1FBE, 1, 0x0399), (0x1FD0, 0x1FD1, 1, 0x1FD8), (0x1FE0, 0x1FE1, 1, 0x1FE8),
      (0x1FE5, 0x1FE5, 1, 0x1FEC), (0x214E, 0x214E, 1, 0x2132), (0x2170, 0x217F, 1, 0x2160),
      (0x2184, 0x2184, 1, 0x2183), (0x24D0, 0x24E9, 1, 0x24B6), (0x2C30, 0x2C5F, 1, 0x2C00),
      (0x2C61, 0x2C61, 1, 0x2C60), (0x2C65, 0x2C65, 1, 0x023A), (0x2C66, 0x2C66, 1, 0x023E),
      (0x2C68, 0x2C6C, 2, 0x2C67), (0x2C73, 0x2C73, 1, 0x2C72), (0x2C76, 0x2C76, 1, 0x2C75),
      (0x2C81, 0x2CE3, 2, 0x2C80), (0x2CEC, 0x2CEE, 2, 0x2CEB), (0x2CF3, 0x2CF3, 1, 0x2CF2),
      (0x2D00, 0x2D25, 1, 0x10A0), (0x2D27, 0x2D27, 1, 0x10C7), (0x2D2D, 0x2D2D, 1, 0x10CD),
      (0xA641, 0xA66D, 2, 0xA640), (0xA681, 0xA69B, 2, 0xA680), (0xA723, 0xA72F, 2, 0xA722),
      (0xA733, 0xA76F, 2, 0xA732), (0xA77A, 0xA77C, 2, 0xA779), (0xA77F, 0xA787, 2, 0xA77E),
      (0xA78C, 0xA78C, 1, 0xA78B), (0xA791, 0xA793, 2, 0xA790), (0xA794, 0xA794, 1, 0xA7C4),
      (0xA797, 0xA7A9, 2, 0xA796), (0xA7B5, 0xA7C3, 2, 0xA7B4), (0xA7C8, 0xA7CA, 2, 0xA7C7),
      (0xA7D1, 0xA7D1, 1, 0xA7D0), (0xA7D7, 0xA7D9, 2, 0xA7D6), (0xA7F6, 0xA7F6, 1, 0xA7F5),
      (0xAB53, 0xAB53, 1, 0xA7B3), (0xAB70, 0xABBF, 1, 0x13A0), (0xFF41, 0xFF5A, 1, 0xFF21),
      (0x10428, 0x1044F, 1, 0x10400), (0x104D8, 0x104FB, 1, 0x104B0), (0x10597, 0x105BB, 2, 0x10570),
      (0x10598, 0x105A0, 2, 0x10571), (0x105A4, 0x105B0, 2, 0x1057D), (0x105B4, 0x105B8, 2, 0x1058D),
      (0x105BC, 0x105BC, 1, 0x10595), (0x10CC0, 0x10CF2, 1, 0x10C80), (0x118C0, 0x118DF, 1, 0x118A0),
      (0x16E60, 0x16E7F, 1, 0x16E40), (0x1E922, 0x1E943, 1, 0x1E900)
     ]"

fun simple_lookup :: "(nat \<times> nat \<times> nat \<times> nat) list \<Rightarrow> nat \<Rightarrow> nat option" where
  "simple_lookup [] cp = None"
| "simple_lookup ((lo, hi, stride, target) # rules) cp =
     (if lo \<le> cp \<and> cp \<le> hi \<and> (cp - lo) mod stride = 0 then Some (target + (cp - lo))
      else simple_lookup rules cp)"

definition ascii_upper :: "nat \<Rightarrow> nat" where
  "ascii_upper c = (if 97 \<le> c \<and> c \<le> 122 then c - 32 else c)"

definition upper_cp :: "nat \<Rightarrow> nat list" where
  "upper_cp cp =
     (if cp < 128 then [ascii_upper cp]
      else case map_of special_upper cp of
        Some u \<Rightarrow> u
      | None \<Rightarrow> (case simple_lookup simple_upper cp of Some u \<Rightarrow> [u] | None \<Rightarrow> [cp]))"

definition toUpperCase :: "jstring \<Rightarrow> jstring" where
  "toUpperCase s = concat (map units_of (concat (map upper_cp (codepoints s))))"

text \<open>\<^verbatim>\<open>s.substring(0, n)\<close>: the first \<open>n\<close> code units, the whole string when it is shorter.\<close>

definition substring0 :: "nat \<Rightarrow> jstring \<Rightarrow> jstring" where
  "substring0 n s = take n s"

text \<open>Does \<open>s\<close> begin with \<open>pat\<close>: one attempt of a literal pattern at the current position.\<close>

fun startsWith :: "jstring \<Rightarrow> jstring \<Rightarrow> bool" where
  "startsWith s [] = True"
| "startsWith [] (p # ps) = False"
| "startsWith (c # cs) (p # ps) = (c = p \<and> startsWith cs ps)"

text \<open>\<^verbatim>\<open>s.includes(pat)\<close>: try the pattern at every position, left to right.\<close>

fun str_includes :: "jstring \<Rightarrow> jstring \<Rightarrow> bool" where
  "str_includes [] pat = (pat = [])"
| "str_includes (c # cs) pat = (startsWith (c # cs) pat \<or> str_includes cs pat)"

text \<open>
  \<^verbatim>\<open>/A|B|.../.test(s)\<close> for literal alternatives: at every position, left to right, try
  the alternatives in their order.
\<close>

fun regex_test :: "jstring list \<Rightarrow> jstring \<Rightarrow> bool" where
  "regex_test alts [] = list_ex (\<lambda>p. p = []) alts"
| "regex_test alts (c # cs) = (list_ex (startsWith (c # cs)) alts \<or> regex_test alts cs)"

text \<open>
  Matching with the \<^verbatim>\<open>i\<close> flag and without the \<^verbatim>\<open>u\<close> flag compares canonicalised code
  units: a code unit is replaced by its uppercase mapping when that is a single code unit,
  except that a code unit from 128 on is never replaced by one below 128.
\<close>

definition canonicalize :: "nat \<Rightarrow> nat" where
  "canonicalize ch =
     (case concat (map units_of (upper_cp ch)) of
        [cu] \<Rightarrow> if 128 \<le> ch \<and> cu < 128 then ch else cu
      | _ \<Rightarrow> ch)"

text \<open>One attempt of a case-insensitive literal pattern at the current position.\<close>

fun startsWith_ci :: "jstring \<Rightarrow> jstring \<Rightarrow> bool" where
  "startsWith_ci s [] = True"
| "startsWith_ci [] (p # ps) = False"
| "startsWith_ci (c # cs) (p # ps) =
     (canonicalize c = canonicalize p \<and> startsWith_ci cs ps)"

text \<open>
  \<^verbatim>\<open>query.match(/SELECT/gi)\<close>: the global match scans left to right; after a match it
  resumes behind the six matched code units, otherwise one code unit further. The result is
  the array of the matched substrings, or \<^verbatim>\<open>null\<close> (here \<open>None\<close>) when there is no match.
\<close>

fun matches_SELECT_gi :: "jstring \<Rightarrow> jstring list" where
  "matches_SELECT_gi [] = []"
| "matches_SELECT_gi (c # cs) =
     (if startsWith_ci (c # cs) (utf16 ''SELECT'')
      then take 6 (c # cs) # matches_SELECT_gi (drop 5 cs)
      else matches_SELECT_gi cs)"

definition match_SELECT_gi :: "jstring \<Rightarrow> jstring list option" where
  "match_SELECT_gi query =
     (case matches_SELECT_gi query of [] \<Rightarrow> None | m # ms \<Rightarrow> Some (m # ms))"

text \<open>
  \<^verbatim>\<open>x || []\<close> for an array or \<^verbatim>\<open>null\<close>: \<^verbatim>\<open>null\<close> is falsy, an array (even an empty one)
  is truthy. Reading \<^verbatim>\<open>.length\<close> of \<^verbatim>\<open>null\<close> throws a \<^verbatim>\<open>TypeError\<close>; this is the only
  operation of the tag computation that can throw.
\<close>

datatype js_error = TypeError

definition or_empty :: "'a list option \<Rightarrow> 'a list option" where
  "or_empty x = (case x of None \<Rightarrow> Some [] | Some a \<Rightarrow> Some a)"

definition array_length :: "'a list option \<Rightarrow> js_error + nat" where
  "array_length x = (case x of None \<Rightarrow> Inl TypeError | Some a \<Rightarrow> Inr (length a))"

section \<open>The classifier of \<^verbatim>\<open>trackSQLComplexity\<close>\<close>

text \<open>
  Lines 279 to 287: the object \<^verbatim>\<open>complexity\<close>, or the exception that ends the call
  before any event is tracked.
\<close>

record complexity =
  has_join :: bool
  has_aggregate :: bool
  has_subquery :: bool
  has_groupby :: bool
  has_where :: bool
  has_window :: bool

definition classify :: "jstring \<Rightarrow> js_error + complexity" where
  "classify query =
     (let upperQuery = toUpperCase query in
      case array_length (or_empty (match_SELECT_gi query)) of
        Inl e \<Rightarrow> Inl e
      | Inr n \<Rightarrow>
          Inr \<lparr> has_join = str_includes upperQuery (utf16 ''JOIN''),
                has_aggregate =
                  regex_test [utf16 ''COUNT'', utf16 ''SUM'', utf16 ''AVG'', utf16 ''MAX'',
                    utf16 ''MIN''] upperQuery,
                has_subquery = (n > 1),
                has_groupby = str_includes upperQuery (utf16 ''GROUP BY''),
                has_where = str_includes upperQuery (utf16 ''WHERE''),
                has_window = regex_test [utf16 ''OVER'', utf16 ''PARTITION BY''] upperQuery \<rparr>)"

section \<open>Events, the tracker's state and its environment\<close>

text \<open>
  \<^verbatim>\<open>EventType\<close> is a union of string literals, a string at run time (\<^verbatim>\<open>EventCreate\<close>
  in \<^verbatim>\<open>api.ts\<close> declares \<^verbatim>\<open>event_type: string\<close>). A metadata object is an association
  list in insertion order. \<open>Instant t\<close> stands for \<^verbatim>\<open>new Date().toISOString()\<close> taken at
  time \<open>t\<close> (milliseconds), \<open>Uuid n\<close> for the result of the \<open>n\<close>-th call of \<^verbatim>\<open>uuidv4()\<close>.
  Field \<open>etype\<close> is \<^verbatim>\<open>EventData.type\<close> and \<open>request_metadata\<close> is
  \<^verbatim>\<open>EventCreate.event_metadata\<close>; both metadata fields are optional in the interfaces and
  always set by \<^verbatim>\<open>trackEvent\<close>, the only place that builds these objects.
\<close>

type_synonym EventType = string

datatype jsval = Str jstring | Num int | Bool bool | Instant nat | Uuid nat

type_synonym metadata = "(string \<times> jsval) list"

text \<open>A property written after a spread in an object literal: replaced in place, or appended.\<close>

fun assign :: "string \<Rightarrow> jsval \<Rightarrow> metadata \<Rightarrow> metadata" where
  "assign k v [] = [(k, v)]"
| "assign k v ((k', v') # m) = (if k' = k then (k, v) # m else (k', v') # assign k v m)"

record EventData =
  etype :: EventType
  event_metadata :: metadata

record EventCreate =
  session_id :: string
  event_type :: string
  request_metadata :: metadata

text \<open>
  The fields of class \<^verbatim>\<open>EventTracker\<close>, followed by the environment it runs in: the
  clock read by \<^verbatim>\<open>Date.now()\<close>, the number of identifiers drawn so far, the call of
  \<^verbatim>\<open>apiService.logEvent\<close> the delivery loop is suspended on (with the loop's local
  \<^verbatim>\<open>event\<close>), and the requests the Event Store has accepted, in order of acceptance.
  \<open>idleTimer\<close> holds the deadline of the pending timeout, \<open>None\<close> when none is pending.
  \<open>enqueued\<close> is a history variable: every event given to \<^verbatim>\<open>eventQueue.push\<close>, in
  order; no operation reads it.
\<close>

record system =
  sessionId :: "string option"
  eventQueue :: "EventData list"
  isProcessing :: bool
  lastActivityTime :: nat
  idleTimer :: "nat option"
  clock :: nat
  uuids :: nat
  inflight :: "(EventData \<times> EventCreate) option"
  eventStore :: "EventCreate list"
  enqueued :: "EventData list"

definition idleThreshold :: nat where
  "idleThreshold = 5000"

text \<open>A fresh \<^verbatim>\<open>new EventTracker()\<close> created at time \<open>t\<close>.\<close>

definition init :: "nat \<Rightarrow> system" where
  "init t = \<lparr> sessionId = None, eventQueue = [], isProcessing = False, lastActivityTime = t,
      idleTimer = None, clock = t, uuids = 0, inflight = None, eventStore = [],
      enqueued = [] \<rparr>"

text \<open>\<^verbatim>\<open>this.sessionId\<close> as a condition: \<^verbatim>\<open>null\<close> and the empty string are falsy.\<close>

definition truthy :: "string option \<Rightarrow> bool" where
  "truthy sid = (case sid of None \<Rightarrow> False | Some x \<Rightarrow> x \<noteq> [])"

section \<open>The operations of \<^verbatim>\<open>EventTracker\<close>\<close>

definition resetIdleTimer :: "system \<Rightarrow> system" where
  "resetIdleTimer s = s\<lparr>idleTimer := Some (clock s + idleThreshold)\<rparr>"

definition updateActivity :: "system \<Rightarrow> system" where
  "updateActivity s = resetIdleTimer (s\<lparr>lastActivityTime := clock s\<rparr>)"

definition startIdleTracking :: "system \<Rightarrow> system" where
  "startIdleTracking s = resetIdleTimer s"

definition initialize :: "string \<Rightarrow> system \<Rightarrow> system" where
  "initialize sid s = startIdleTracking (s\<lparr>sessionId := Some sid\<rparr>)"

text \<open>
  The \<^verbatim>\<open>while\<close> loop of \<^verbatim>\<open>processQueue\<close> up to its next suspension: it shifts the head
  of the queue; with a truthy session id it calls \<^verbatim>\<open>logEvent\<close> and waits (second
  component \<open>Some\<close>); otherwise the shifted event is skipped and the loop goes on. An
  empty queue ends the loop (second component \<open>None\<close>).
\<close>

fun shift_loop ::
  "string option \<Rightarrow> EventData list \<Rightarrow> EventData list \<times> (EventData \<times> EventCreate) option" where
  "shift_loop sid [] = ([], None)"
| "shift_loop sid (event # rest) =
     (case sid of
        None \<Rightarrow> shift_loop sid rest
      | Some x \<Rightarrow>
          if x \<noteq> [] then
            (rest, Some (event, \<lparr> session_id = x, event_type = etype event,
                                 request_metadata = event_metadata event \<rparr>))
          else shift_loop sid rest)"

definition run_loop :: "system \<Rightarrow> system" where
  "run_loop s =
     (case shift_loop (sessionId s) (eventQueue s) of
        (q, None) \<Rightarrow> s\<lparr>eventQueue := q, isProcessing := False\<rparr>
      | (q, Some call) \<Rightarrow> s\<lparr>eventQueue := q, inflight := Some call\<rparr>)"

definition processQueue :: "system \<Rightarrow> system" where
  "processQueue s =
     (if eventQueue s = [] \<or> isProcessing s then s
      else run_loop (s\<lparr>isProcessing := True\<rparr>))"

definition trackEvent :: "EventType \<Rightarrow> metadata \<Rightarrow> system \<Rightarrow> system" where
  "trackEvent ty md s =
     (if \<not> truthy (sessionId s) then s
      else
        let eventData = \<lparr> etype = ty,
              event_metadata =
                assign ''client_id'' (Uuid (uuids s)) (assign ''timestamp'' (Instant (clock s)) md) \<rparr>;
            s1 = s\<lparr>uuids := Suc (uuids s),
                   eventQueue := eventQueue s @ [eventData],
                   enqueued := enqueued s @ [eventData]\<rparr>;
            s2 = updateActivity s1
        in if \<not> isProcessing s2 then processQueue s2 else s2)"

text \<open>The awaited \<^verbatim>\<open>logEvent\<close> resolves: the store has the event, the loop goes on.\<close>

definition logEvent_resolved :: "system \<Rightarrow> system" where
  "logEvent_resolved s =
     (case inflight s of
        None \<Rightarrow> s
      | Some (event, request) \<Rightarrow>
          run_loop (s\<lparr>eventStore := eventStore s @ [request], inflight := None\<rparr>))"

text \<open>
  The awaited \<^verbatim>\<open>logEvent\<close> rejects: the \<^verbatim>\<open>catch\<close> block puts the event back with
  \<^verbatim>\<open>unshift\<close>, leaves the loop, and \<^verbatim>\<open>isProcessing\<close> is cleared.
\<close>

definition logEvent_rejected :: "system \<Rightarrow> system" where
  "logEvent_rejected s =
     (case inflight s of
        None \<Rightarrow> s
      | Some (event, request) \<Rightarrow>
          s\<lparr>eventQueue := event # eventQueue s, inflight := None, isProcessing := False\<rparr>)"

text \<open>
  The callback given to \<^verbatim>\<open>setTimeout\<close> in \<^verbatim>\<open>resetIdleTimer\<close>: it can run once the
  deadline has passed, and the timeout is then no longer pending.
\<close>

definition idle_timeout :: "system \<Rightarrow> system" where
  "idle_timeout s =
     (case idleTimer s of
        None \<Rightarrow> s
      | Some deadline \<Rightarrow>
          if deadline \<le> clock s then
            trackEvent ''IDLE_GAP''
              [(''idle_duration'', Num (int (clock s) - int (lastActivityTime s)))]
              (s\<lparr>idleTimer := None\<rparr>)
          else s)"

definition cleanup :: "system \<Rightarrow> system" where
  "cleanup s = s\<lparr>idleTimer := None, sessionId := None, eventQueue := []\<rparr>"

text \<open>
  The six conditional \<^verbatim>\<open>trackEvent\<close> calls of \<^verbatim>\<open>trackSQLComplexity\<close> (lines 289 to 295),
  in their order, as the list of their arguments.
\<close>

definition emit :: "complexity \<Rightarrow> jstring \<Rightarrow> (EventType \<times> metadata) list" where
  "emit complexity query =
     (let snippet = [(''query_snippet'', Str (substring0 100 query))]
      in (if has_join complexity then [(''TABLE_JOINED'', snippet)] else [])
       @ (if has_aggregate complexity then [(''AGGREGATE_USED'', snippet)] else [])
       @ (if has_subquery complexity then [(''SUBQUERY_USED'', snippet)] else [])
       @ (if has_groupby complexity then [(''GROUPING_APPLIED'', snippet)] else [])
       @ (if has_where complexity then [(''FILTER_APPLIED'', snippet)] else [])
       @ (if has_window complexity then [(''WINDOW_FUNCTION_USED'', snippet)] else []))"

fun trackEvents :: "(EventType \<times> metadata) list \<Rightarrow> system \<Rightarrow> system" where
  "trackEvents [] s = s"
| "trackEvents ((ty, md) # calls) s = trackEvents calls (trackEvent ty md s)"

text \<open>
  \<^verbatim>\<open>trackSQLComplexity\<close>: the returned object, or the exception, with the state afterwards.
\<close>

definition trackSQLComplexity ::
  "jstring \<Rightarrow> system \<Rightarrow> (js_error + complexity) \<times> system" where
  "trackSQLComplexity query s =
     (case classify query of
        Inl e \<Rightarrow> (Inl e, s)
      | Inr complexity \<Rightarrow> (Inr complexity, trackEvents (emit complexity query) s))"

section \<open>Runs\<close>

text \<open>
  What can happen to a tracker: a call of one of its methods, the completion of the
  awaited delivery, the passing of time, the idle timeout.
\<close>

datatype action =
    Initialize string
  | TrackEvent EventType metadata
  | TrackSQLComplexity jstring
  | Cleanup
  | Resolved
  | Rejected
  | Elapse nat
  | IdleTimeout

fun step :: "action \<Rightarrow> system \<Rightarrow> system" where
  "step (Initialize sid) s = initialize sid s"
| "step (TrackEvent ty md) s = trackEvent ty md s"
| "step (TrackSQLComplexity query) s = snd (trackSQLComplexity query s)"
| "step Cleanup s = cleanup s"
| "step Resolved s = logEvent_resolved s"
| "step Rejected s = logEvent_rejected s"
| "step (Elapse d) s = s\<lparr>clock := clock s + d\<rparr>"
| "step IdleTimeout s = idle_timeout s"

fun run :: "action list \<Rightarrow> system \<Rightarrow> system" where
  "run [] s = s"
| "run (a # as) s = run as (step a s)"

section \<open>Notions used to state the properties\<close>

text \<open>
  The keyword count in the words of the specification: an occurrence of a keyword at
  position \<open>i\<close> of a text is a stretch of the text that starts at \<open>i\<close> and reads as the
  keyword once the case of the letters \<^verbatim>\<open>a\<close>..\<^verbatim>\<open>z\<close> is ignored; the occurrences are
  counted over all positions.
\<close>

definition occurs_at :: "jstring \<Rightarrow> nat \<Rightarrow> jstring \<Rightarrow> bool" where
  "occurs_at kw i txt = (map ascii_upper (take (length kw) (drop i txt)) = kw)"

definition keyword_occurrences :: "jstring \<Rightarrow> jstring \<Rightarrow> nat" where
  "keyword_occurrences kw txt = length (filter (\<lambda>i. occurs_at kw i txt) [0..<length txt])"

text \<open>Texts all of whose code units are ASCII.\<close>

definition is_ascii :: "jstring \<Rightarrow> bool" where
  "is_ascii s = list_all (\<lambda>u. u < 128) s"

text \<open>The event type emitted for each tag, in the order of the six calls.\<close>

definition tag_events :: "(EventType \<times> (complexity \<Rightarrow> bool)) list" where
  "tag_events =
     [(''TABLE_JOINED'', has_join), (''AGGREGATE_USED'', has_aggregate),
      (''SUBQUERY_USED'', has_subquery), (''GROUPING_APPLIED'', has_groupby),
      (''FILTER_APPLIED'', has_where), (''WINDOW_FUNCTION_USED'', has_window)]"

text \<open>The second example query of the specification's testable properties.\<close>

definition join_query :: string where
  "join_query = ''SELECT c.name, COUNT(o.id) FROM c LEFT JOIN o ON c.id=o.cid GROUP BY c.name HAVING COUNT(o.id)>5''"

text \<open>The event a request carries, and the request the loop builds for an event.\<close>

definition event_of :: "EventCreate \<Rightarrow> EventData" where
  "event_of request = \<lparr> etype = event_type request, event_metadata = request_metadata request \<rparr>"

definition request_for :: "string \<Rightarrow> EventData \<Rightarrow> EventCreate" where
  "request_for sid event =
     \<lparr> session_id = sid, event_type = etype event, request_metadata = event_metadata event \<rparr>"

text \<open>The object \<^verbatim>\<open>trackEvent\<close> builds and pushes in state \<open>s\<close>.\<close>

definition new_event :: "EventType \<Rightarrow> metadata \<Rightarrow> system \<Rightarrow> EventData" where
  "new_event ty md s =
     \<lparr> etype = ty,
       event_metadata =
         assign ''client_id'' (Uuid (uuids s)) (assign ''timestamp'' (Instant (clock s)) md) \<rparr>"

text \<open>
  The events the Event Store has accepted, and the events the client still holds: the one
  whose delivery is awaited, then the queue.
\<close>

definition delivered :: "system \<Rightarrow> EventData list" where
  "delivered s = map event_of (eventStore s)"

definition in_hand :: "system \<Rightarrow> EventData list" where
  "in_hand s =
     (case inflight s of None \<Rightarrow> [] | Some (event, request) \<Rightarrow> [event]) @ eventQueue s"

text \<open>
  Two facts about every state a tracker reaches: a delivery is awaited only by a running
  loop, for the event it shifted; and, as long as \<^verbatim>\<open>cleanup\<close> and \<^verbatim>\<open>initialize('')\<close> are
  not called, events are held only under a truthy session id.
\<close>

definition loop_ok :: "system \<Rightarrow> bool" where
  "loop_ok s =
     (case inflight s of
        None \<Rightarrow> True
      | Some (event, request) \<Rightarrow> isProcessing s \<and> event_of request = event)"

definition no_orphans :: "system \<Rightarrow> bool" where
  "no_orphans s = (truthy (sessionId s) \<or> (eventQueue s = [] \<and> inflight s = None))"

definition sound :: "system \<Rightarrow> bool" where
  "sound s = (loop_ok s \<and> no_orphans s)"

fun keeps_session :: "action \<Rightarrow> bool" where
  "keeps_session Cleanup = False"
| "keeps_session (Initialize sid) = (sid \<noteq> [])"
| "keeps_session a = True"

text \<open>
  From \<open>s\<close> to \<open>s'\<close> the store and the history have only grown, and what the store gained,
  followed by what is in hand now, is what was in hand followed by what was enqueued.
\<close>

definition advances :: "system \<Rightarrow> system \<Rightarrow> bool" where
  "advances s s' =
     (\<exists>X Y. eventStore s' = eventStore s @ X \<and> enqueued s' = enqueued s @ Y \<and>
            map event_of X @ in_hand s' = in_hand s @ Y)"

text \<open>
  The weaker relation that also holds across \<^verbatim>\<open>cleanup\<close>: what the store gained, followed
  by what is in hand now, is a subsequence of what was in hand followed by what was
  enqueued (events may have been discarded, none has overtaken another).
\<close>

definition progresses :: "system \<Rightarrow> system \<Rightarrow> bool" where
  "progresses s s' =
     (\<exists>X Y. eventStore s' = eventStore s @ X \<and> enqueued s' = enqueued s @ Y \<and>
            subseq (map event_of X @ in_hand s') (in_hand s @ Y))"

text \<open>
  The number of the identifier an event carries as \<^verbatim>\<open>client_id\<close>, and the invariant that
  the enqueued events carry pairwise different identifiers, all drawn already.
\<close>

definition client_no :: "EventData \<Rightarrow> nat option" where
  "client_no e =
     (case map_of (event_metadata e) ''client_id'' of Some (Uuid n) \<Rightarrow> Some n | _ \<Rightarrow> None)"

definition fresh_ids :: "system \<Rightarrow> bool" where
  "fresh_ids s =
     (distinct (map client_no (enqueued s)) \<and>
      list_all (\<lambda>e. case client_no e of Some n \<Rightarrow> n < uuids s | None \<Rightarrow> False) (enqueued s))"

text \<open>
  The activity clock is never ahead of the clock, and a pending idle timeout is due no
  earlier than one threshold after the activity clock.
\<close>

definition time_ok :: "system \<Rightarrow> bool" where
  "time_ok s =
     (lastActivityTime s \<le> clock s \<and>
      (case idleTimer s of None \<Rightarrow> True | Some d \<Rightarrow> lastActivityTime s + idleThreshold \<le> d))"

text \<open>A run with one failed delivery, used to exercise the ordering theorem.\<close>

definition retry_scenario :: "action list" where
  "retry_scenario =
     [Initialize ''s1'', TrackEvent ''CODE_EDIT'' [], TrackEvent ''CODE_RUN'' [], Rejected,
      TrackEvent ''SQL_RUN'' [], Resolved, Resolved, Resolved]"

text \<open>
  Concrete runs used as examples: a delivery awaited right after the first tracked event; a
  second \<^verbatim>\<open>initialize\<close> while an event whose delivery failed is still queued; a tracker
  left alone for two idle thresholds.
\<close>

definition first_attempt :: system where
  "first_attempt = run [Initialize ''s1'', TrackEvent ''CODE_EDIT'' []] (init 0)"


definition idle_scenario :: "action list" where
  "idle_scenario =
     [Initialize ''s1'', TrackEvent ''CODE_EDIT'' [], Resolved, Elapse 5000, IdleTimeout,
      Resolved, Elapse 5000, IdleTimeout, Resolved]"

section \<open>The session phase controller\<close>

text \<open>
  Modelled from the spec: the phase controller's \<^verbatim>\<open>submit\<close> (the backend endpoint
  \<^verbatim>\<open>POST /api/sessions/{id}/submit\<close> of \<^verbatim>\<open>backend/main.py\<close>), which is not among the
  sources at hand. The specification (section 4.3) makes it valid only in phase
  \<open>coding\<close>, where it sets the phase to \<open>interview\<close>, sets \<open>submitted_at\<close> to the current
  time and logs \<^verbatim>\<open>PHASE_SUBMITTED\<close>, \<^verbatim>\<open>INTERVIEW_STARTED\<close> and the first question as an
  \<^verbatim>\<open>INTERVIEW_QUESTION\<close> event (an empty question when the question service fails); in any
  other phase it fails with \<open>InvalidTransition\<close> and has no effect. The result pairs the
  outcome with the session afterwards.
\<close>

datatype phase = coding | interview | completed

datatype error = InvalidTransition

record session =
  phase :: phase
  submitted_at :: "nat option"
  event_log :: "(EventType \<times> metadata) list"

definition submit :: "nat \<Rightarrow> jstring option \<Rightarrow> session \<Rightarrow> (error + unit) \<times> session" where
  "submit now firstQuestion s =
     (if phase s = coding then
        (Inr (),
         s\<lparr>phase := interview, submitted_at := Some now,
           event_log := event_log s @
             [(''PHASE_SUBMITTED'', []), (''INTERVIEW_STARTED'', []),
              (''INTERVIEW_QUESTION'',
                 [(''question'', Str (case firstQuestion of None \<Rightarrow> [] | Some q \<Rightarrow> q))])]\<rparr>)
      else (Inl InvalidTransition, s))"

section \<open>String primitives: what they compute\<close>

lemma utf16_Nil: "utf16 [] = []" by (simp add: utf16_def)
lemma utf16_Cons: "utf16 (c # cs) = of_char c # utf16 cs" by (simp add: utf16_def)

lemma codepoints_ascii: "is_ascii s \<Longrightarrow> codepoints s = s"
  by (induction s rule: codepoints.induct) (auto simp: is_ascii_def)

lemma upper_cp_ascii: "c < 128 \<Longrightarrow> upper_cp c = [ascii_upper c]"
  by (simp add: upper_cp_def)

lemma ascii_upper_less: "c < 128 \<Longrightarrow> ascii_upper c < 128"
  by (auto simp: ascii_upper_def)

lemma units_of_ascii: "c < 128 \<Longrightarrow> units_of c = [c]"
  by (simp add: units_of_def)

lemma toUpperCase_ascii: "is_ascii s \<Longrightarrow> toUpperCase s = map ascii_upper s"
proof -
  assume a: "is_ascii s"
  have "concat (map units_of (concat (map upper_cp t))) = map ascii_upper t"
    if "is_ascii t" for t
    using that
    by (induction t) (simp_all add: is_ascii_def upper_cp_ascii units_of_ascii ascii_upper_less)
  then show ?thesis using a by (simp add: toUpperCase_def codepoints_ascii)
qed

lemma canonicalize_ascii: "c < 128 \<Longrightarrow> canonicalize c = ascii_upper c"
  by (simp add: canonicalize_def upper_cp_ascii units_of_ascii ascii_upper_less)

lemma canonicalize_non_ascii: "128 \<le> c \<Longrightarrow> 128 \<le> canonicalize c"
  by (auto simp: canonicalize_def split: list.splits)

lemma canonicalize_eq_ascii:
  assumes "k < 128"
  shows "canonicalize c = canonicalize k \<longleftrightarrow> ascii_upper c = ascii_upper k"
proof (cases "c < 128")
  case True
  then show ?thesis using assms by (simp add: canonicalize_ascii)
next
  case False
  then have "128 \<le> canonicalize c" "ascii_upper c = c"
    by (simp_all add: canonicalize_non_ascii ascii_upper_def)
  moreover have "canonicalize k < 128" "ascii_upper k < 128"
    using assms by (simp_all add: canonicalize_ascii ascii_upper_less)
  ultimately show ?thesis using False by auto
qed

lemma startsWith_ci_fold:
  "is_ascii p \<Longrightarrow> startsWith_ci s p = startsWith (map ascii_upper s) (map ascii_upper p)"
  by (induction s p rule: startsWith_ci.induct) (auto simp: is_ascii_def canonicalize_eq_ascii)

text \<open>Samples of the uppercase mapping outside ASCII.\<close>

lemma upper_cp_samples:
  "upper_cp 0xDF = [0x53, 0x53]" "upper_cp 0x17F = [0x53]" "upper_cp 0x131 = [0x49]"
  "upper_cp 0xE9 = [0xC9]" "upper_cp 0xFF = [0x178]" "upper_cp 0xB5 = [0x39C]"
  "upper_cp 0xFB01 = [0x46, 0x49]" "upper_cp 0x10428 = [0x10400]" "upper_cp 0x4E2D = [0x4E2D]"
  "upper_cp 0xD800 = [0xD800]"
  by (simp_all add: upper_cp_def special_upper_def simple_upper_def)

lemma sharp_s: "toUpperCase [0xDF, 0x75, 0x6D] = utf16 ''SSUM''"
  by (simp add: toUpperCase_def upper_cp_samples upper_cp_ascii units_of_def utf16_def
      ascii_upper_def)

lemma long_s: "toUpperCase [0x17F, 0x75, 0x6D] = utf16 ''SUM''"
  by (simp add: toUpperCase_def upper_cp_samples upper_cp_ascii units_of_def utf16_def
      ascii_upper_def)

lemma deseret: "toUpperCase [0xD801, 0xDC28] = [0xD801, 0xDC00]"
  by (simp add: toUpperCase_def upper_cp_samples units_of_def)

lemma lone_surrogate: "toUpperCase [0xD800] = [0xD800]"
  by (simp add: toUpperCase_def upper_cp_samples units_of_def)

lemma canon_long_s: "canonicalize 0x17F = 0x17F"
  by (simp add: canonicalize_def upper_cp_samples units_of_def)

lemma startsWith_iff: "startsWith s p \<longleftrightarrow> (\<exists>r. s = p @ r)"
  by (induction s p rule: startsWith.induct) auto

lemma str_includes_iff: "str_includes s p \<longleftrightarrow> (\<exists>xs ys. s = xs @ p @ ys)"
proof (induction s)
  case Nil
  then show ?case by auto
next
  case (Cons c cs)
  show ?case
  proof
    assume "str_includes (c # cs) p"
    then consider "startsWith (c # cs) p" | "str_includes cs p" by auto
    then show "\<exists>xs ys. c # cs = xs @ p @ ys"
    proof cases
      case 1
      then obtain r where "c # cs = p @ r" by (auto simp: startsWith_iff)
      then have "c # cs = [] @ p @ r" by simp
      then show ?thesis by blast
    next
      case 2
      then obtain xs ys where "cs = xs @ p @ ys" using Cons.IH by auto
      then have "c # cs = (c # xs) @ p @ ys" by simp
      then show ?thesis by blast
    qed
  next
    assume "\<exists>xs ys. c # cs = xs @ p @ ys"
    then obtain xs ys where e: "c # cs = xs @ p @ ys" by auto
    show "str_includes (c # cs) p"
    proof (cases xs)
      case Nil
      then have "startsWith (c # cs) p" using e by (auto simp: startsWith_iff)
      then show ?thesis by simp
    next
      case (Cons x xs')
      then have "cs = xs' @ p @ ys" using e by simp
      then have "str_includes cs p" using Cons.IH by blast
      then show ?thesis by simp
    qed
  qed
qed

lemma regex_test_iff: "regex_test alts s \<longleftrightarrow> (\<exists>p\<in>set alts. str_includes s p)"
  by (induction s) (auto simp: list_ex_iff)

lemma str_includes_sublist: "str_includes s p \<longleftrightarrow> sublist p s"
  by (simp add: str_includes_iff sublist_def)

lemma utf16_SELECT: "utf16 ''SELECT'' = [83, 69, 76, 69, 67, 84]"
  by (simp add: utf16_def)

lemma SELECT_fold: "is_ascii (utf16 ''SELECT'')" "map ascii_upper (utf16 ''SELECT'') = utf16 ''SELECT''"
  by (simp_all add: utf16_SELECT is_ascii_def ascii_upper_def)

lemma startsWith_take: "startsWith s p \<longleftrightarrow> take (length p) s = p"
  by (induction s p rule: startsWith.induct) auto

lemma startsWith_ci_occurs:
  "startsWith_ci s (utf16 ''SELECT'') = occurs_at (utf16 ''SELECT'') 0 s"
proof -
  have "startsWith_ci s (utf16 ''SELECT'') = startsWith (map ascii_upper s) (utf16 ''SELECT'')"
    by (simp only: startsWith_ci_fold[OF SELECT_fold(1)] SELECT_fold(2))
  also have "\<dots> = (take (length (utf16 ''SELECT'')) (map ascii_upper s) = utf16 ''SELECT'')"
    by (simp only: startsWith_take)
  finally show ?thesis by (simp only: occurs_at_def drop_0 take_map)
qed

lemma occurs_at_Suc: "occurs_at kw (Suc i) (c # cs) = occurs_at kw i cs"
  by (simp add: occurs_at_def)

lemma keyword_occurrences_Cons:
  "keyword_occurrences kw (c # cs) =
     (if occurs_at kw 0 (c # cs) then 1 else 0) + keyword_occurrences kw cs"
proof -
  have "[0..<length (c # cs)] = 0 # map Suc [0..<length cs]"
    by (simp add: upt_conv_Cons map_Suc_upt del: upt_Suc)
  then show ?thesis
    by (simp add: keyword_occurrences_def filter_map o_def occurs_at_Suc)
qed

lemma keyword_occurrences_Nil: "keyword_occurrences kw [] = 0"
  by (simp add: keyword_occurrences_def)

lemma SELECT_no_overlap:
  assumes "occurs_at (utf16 ''SELECT'') 0 (c # cs)"
  shows "keyword_occurrences (utf16 ''SELECT'') cs
    = keyword_occurrences (utf16 ''SELECT'') (drop 5 cs)"
proof -
  from assms obtain c1 c2 c3 c4 c5 r where cs: "cs = c1 # c2 # c3 # c4 # c5 # r"
    by (cases cs; simp add: occurs_at_def utf16_SELECT; cases "tl cs"; simp;
        cases "tl (tl cs)"; simp; cases "tl (tl (tl cs))"; simp;
        cases "tl (tl (tl (tl cs)))"; simp)
  from assms have u: "ascii_upper c1 = 69" "ascii_upper c2 = 76"
    "ascii_upper c3 = 69" "ascii_upper c4 = 67" "ascii_upper c5 = 84"
    by (simp_all add: cs occurs_at_def utf16_SELECT)
  show ?thesis
    by (simp add: cs keyword_occurrences_Cons occurs_at_def utf16_SELECT u)
qed

lemma matches_SELECT_gi_occurrences:
  "length (matches_SELECT_gi s) = keyword_occurrences (utf16 ''SELECT'') s"
proof (induction s rule: matches_SELECT_gi.induct)
  case 1
  show ?case by (simp add: keyword_occurrences_Nil)
next
  case (2 c cs)
  show ?case
  proof (cases "startsWith_ci (c # cs) (utf16 ''SELECT'')")
    case True
    have o: "occurs_at (utf16 ''SELECT'') 0 (c # cs)"
      using True unfolding startsWith_ci_occurs .
    show ?thesis
      using 2 True o SELECT_no_overlap[OF o]
      by (simp add: keyword_occurrences_Cons del: startsWith_ci.simps)
  next
    case False
    have o: "\<not> occurs_at (utf16 ''SELECT'') 0 (c # cs)"
      using False unfolding startsWith_ci_occurs .
    show ?thesis
      using 2 False o by (simp add: keyword_occurrences_Cons del: startsWith_ci.simps)
  qed
qed

lemma array_length_match:
  "array_length (or_empty (match_SELECT_gi query)) = Inr (length (matches_SELECT_gi query))"
  by (simp add: array_length_def or_empty_def match_SELECT_gi_def split: list.splits)

lemma classify_eq:
  "classify query =
     Inr \<lparr> has_join = str_includes (toUpperCase query) (utf16 ''JOIN''),
           has_aggregate =
             regex_test [utf16 ''COUNT'', utf16 ''SUM'', utf16 ''AVG'', utf16 ''MAX'',
               utf16 ''MIN''] (toUpperCase query),
           has_subquery = (length (matches_SELECT_gi query) > 1),
           has_groupby = str_includes (toUpperCase query) (utf16 ''GROUP BY''),
           has_where = str_includes (toUpperCase query) (utf16 ''WHERE''),
           has_window = regex_test [utf16 ''OVER'', utf16 ''PARTITION BY''] (toUpperCase query) \<rparr>"
  by (simp add: classify_def Let_def array_length_match)

lemma matches_SELECT_gi_Cons:
  "matches_SELECT_gi (c # cs) =
     (if occurs_at (utf16 ''SELECT'') 0 (c # cs)
      then take 6 (c # cs) # matches_SELECT_gi (drop 5 cs)
      else matches_SELECT_gi cs)"
  by (simp only: matches_SELECT_gi.simps startsWith_ci_occurs)

lemma matches_SELECT_gi_skip:
  "ascii_upper c \<noteq> 83 \<Longrightarrow> matches_SELECT_gi (c # cs) = matches_SELECT_gi cs"
  by (simp add: matches_SELECT_gi_Cons occurs_at_def utf16_SELECT del: matches_SELECT_gi.simps)

lemma matches_SELECT_gi_S:
  "ascii_upper c = 83 \<Longrightarrow> matches_SELECT_gi (c # cs) =
     (if map ascii_upper (take 5 cs) = [69, 76, 69, 67, 84]
      then take 6 (c # cs) # matches_SELECT_gi (drop 5 cs)
      else matches_SELECT_gi cs)"
  by (simp add: matches_SELECT_gi_Cons occurs_at_def utf16_SELECT eval_nat_numeral
      del: matches_SELECT_gi.simps)

lemmas text_eval = utf16_def is_ascii_def ascii_upper_def substring0_def

lemma q1_upper: "toUpperCase (utf16 ''SELECT * FROM t'') = utf16 ''SELECT * FROM T''"
  by (subst toUpperCase_ascii) (simp_all add: text_eval)

lemma q1_matches: "length (matches_SELECT_gi (utf16 ''SELECT * FROM t'')) = 1"
  by (simp add: utf16_def matches_SELECT_gi_skip matches_SELECT_gi_S ascii_upper_def
      del: matches_SELECT_gi.simps(2))

lemma q2_upper: "toUpperCase (utf16 join_query) = utf16 ''SELECT C.NAME, COUNT(O.ID) FROM C LEFT JOIN O ON C.ID=O.CID GROUP BY C.NAME HAVING COUNT(O.ID)>5''"
  by (subst toUpperCase_ascii) (simp_all add: text_eval join_query_def)

lemma q2_matches: "length (matches_SELECT_gi (utf16 join_query)) = 1"
  by (simp add: utf16_def join_query_def matches_SELECT_gi_skip matches_SELECT_gi_S ascii_upper_def
      del: matches_SELECT_gi.simps(2))

lemma emit_types:
  "map fst (emit c query) = map fst (filter (\<lambda>(ty, tag). tag c) tag_events)"
  by (simp add: emit_def tag_events_def Let_def)

lemma emit_metadata:
  "list_all (\<lambda>(ty, md). md = [(''query_snippet'', Str (take 100 query))]) (emit c query)"
  by (simp add: emit_def Let_def substring0_def)

lemma excerpt_full_iff: "take 100 query = query \<longleftrightarrow> length query \<le> 100"
  by (metis length_take min.absorb_iff2 take_all min.commute)

lemma classify_sharp_s:
  "classify [0xDF, 0x75, 0x6D] =
     Inr \<lparr> has_join = False, has_aggregate = True, has_subquery = False, has_groupby = False,
           has_where = False, has_window = False \<rparr>"
  by (simp add: classify_eq sharp_s matches_SELECT_gi_skip ascii_upper_def
      del: matches_SELECT_gi.simps(2)) (simp add: utf16_def)

lemma classify_lone_surrogate:
  "classify [0xD800] =
     Inr \<lparr> has_join = False, has_aggregate = False, has_subquery = False, has_groupby = False,
           has_where = False, has_window = False \<rparr>"
  by (simp add: classify_eq lone_surrogate matches_SELECT_gi_skip ascii_upper_def
      del: matches_SELECT_gi.simps(2)) (simp add: utf16_def)

lemma trackSQLComplexity_eq:
  "\<exists>c. classify query = Inr c \<and>
     trackSQLComplexity query s = (Inr c, trackEvents (emit c query) s)"
  by (simp add: trackSQLComplexity_def classify_eq)

section \<open>The delivery loop: invariants\<close>

lemma shift_loop_truthy:
  "truthy sid \<Longrightarrow> shift_loop sid (e # q) = (q, Some (e, request_for (the sid) e))"
  by (auto simp: truthy_def request_for_def split: option.splits)

lemma shift_loop_falsy: "\<not> truthy sid \<Longrightarrow> shift_loop sid q = ([], None)"
  by (induction q) (auto simp: truthy_def split: option.splits)

lemma event_of_request_for: "event_of (request_for sid e) = e"
  by (simp add: event_of_def request_for_def)

lemma loop_ok_iff:
  "loop_ok s \<longleftrightarrow> (\<forall>e r. inflight s = Some (e, r) \<longrightarrow> isProcessing s \<and> event_of r = e)"
  by (auto simp: loop_ok_def split: option.splits)

lemma run_loop_truthy_Cons:
  "truthy (sessionId s) \<Longrightarrow> eventQueue s = e # q \<Longrightarrow>
   run_loop s = s\<lparr>eventQueue := q, inflight := Some (e, request_for (the (sessionId s)) e)\<rparr>"
  by (simp add: run_loop_def shift_loop_truthy del: shift_loop.simps)

lemma run_loop_Nil:
  "eventQueue s = [] \<Longrightarrow> run_loop s = s\<lparr>eventQueue := [], isProcessing := False\<rparr>"
  by (simp add: run_loop_def)

lemma run_loop_falsy:
  "\<not> truthy (sessionId s) \<Longrightarrow> run_loop s = s\<lparr>eventQueue := [], isProcessing := False\<rparr>"
  by (simp add: run_loop_def shift_loop_falsy)

lemma run_loop_cases:
  obtains (suspended) e q where "truthy (sessionId s)" "eventQueue s = e # q"
      "run_loop s = s\<lparr>eventQueue := q, inflight := Some (e, request_for (the (sessionId s)) e)\<rparr>"
  | (finished) "run_loop s = s\<lparr>eventQueue := [], isProcessing := False\<rparr>"
      "\<not> truthy (sessionId s) \<or> eventQueue s = []"
proof (cases "truthy (sessionId s)")
  case True
  show ?thesis
  proof (cases "eventQueue s")
    case Nil
    then show ?thesis using finished run_loop_Nil by blast
  next
    case (Cons e q)
    then show ?thesis using suspended True run_loop_truthy_Cons by blast
  qed
next
  case False
  then show ?thesis using finished run_loop_falsy by blast
qed

lemma advances_refl: "advances s s"
  unfolding advances_def by (rule exI[of _ "[]"], rule exI[of _ "[]"]) simp

lemma advances_trans: "advances s s' \<Longrightarrow> advances s' s'' \<Longrightarrow> advances s s''"
proof -
  assume "advances s s'" "advances s' s''"
  then obtain X Y X' Y' where
    a: "eventStore s' = eventStore s @ X" "enqueued s' = enqueued s @ Y"
       "map event_of X @ in_hand s' = in_hand s @ Y" and
    b: "eventStore s'' = eventStore s' @ X'" "enqueued s'' = enqueued s' @ Y'"
       "map event_of X' @ in_hand s'' = in_hand s' @ Y'"
    unfolding advances_def by blast
  have "map event_of (X @ X') @ in_hand s'' = map event_of X @ (in_hand s' @ Y')"
    using b(3) by simp
  also have "\<dots> = in_hand s @ (Y @ Y')" using a(3) by (metis append.assoc)
  finally have "map event_of (X @ X') @ in_hand s'' = in_hand s @ (Y @ Y')" .
  moreover have "eventStore s'' = eventStore s @ (X @ X')" using a(1) b(1) by simp
  moreover have "enqueued s'' = enqueued s @ (Y @ Y')" using a(2) b(2) by simp
  ultimately show ?thesis unfolding advances_def by blast
qed

lemma run_loop_sound:
  assumes "inflight s = None" "isProcessing s"
  shows "loop_ok (run_loop s)" "no_orphans (run_loop s)"
    "truthy (sessionId s) \<Longrightarrow> in_hand (run_loop s) = in_hand s"
    "eventStore (run_loop s) = eventStore s" "enqueued (run_loop s) = enqueued s"
    "sessionId (run_loop s) = sessionId s"
  using assms
  by (cases s rule: run_loop_cases;
      auto simp: loop_ok_def no_orphans_def in_hand_def event_of_request_for)+


lemma processQueue_sound:
  assumes "loop_ok s" "truthy (sessionId s)"
  shows "loop_ok (processQueue s)" "in_hand (processQueue s) = in_hand s"
    "eventStore (processQueue s) = eventStore s" "enqueued (processQueue s) = enqueued s"
    "sessionId (processQueue s) = sessionId s"
proof -
  have "loop_ok (processQueue s) \<and> in_hand (processQueue s) = in_hand s \<and>
    eventStore (processQueue s) = eventStore s \<and> enqueued (processQueue s) = enqueued s \<and>
    sessionId (processQueue s) = sessionId s"
  proof (cases "eventQueue s = [] \<or> isProcessing s")
    case True
    then show ?thesis
      using assms by (simp add: processQueue_def)
  next
    case False
    define t where "t = s\<lparr>isProcessing := True\<rparr>"
    have n: "inflight s = None"
      using False assms(1) by (auto simp: loop_ok_def split: option.splits)
    have t: "inflight t = None" "isProcessing t" "truthy (sessionId t)" "in_hand t = in_hand s"
      "eventStore t = eventStore s" "enqueued t = enqueued s" "sessionId t = sessionId s"
      using n assms(2) by (simp_all add: t_def in_hand_def)
    have p: "processQueue s = run_loop t"
      using False by (simp add: processQueue_def t_def)
    show ?thesis
      using run_loop_sound[OF t(1) t(2)] t by (simp add: p)
  qed
  then show "loop_ok (processQueue s)" "in_hand (processQueue s) = in_hand s"
    "eventStore (processQueue s) = eventStore s" "enqueued (processQueue s) = enqueued s"
    "sessionId (processQueue s) = sessionId s"
    by simp_all
qed

lemma trackEvent_falsy: "\<not> truthy (sessionId s) \<Longrightarrow> trackEvent ty md s = s"
  by (simp add: trackEvent_def)

lemma trackEvent_truthy:
  assumes "truthy (sessionId s)" "loop_ok s"
  shows "loop_ok (trackEvent ty md s)"
    "in_hand (trackEvent ty md s) = in_hand s @ [new_event ty md s]"
    "eventStore (trackEvent ty md s) = eventStore s"
    "enqueued (trackEvent ty md s) = enqueued s @ [new_event ty md s]"
    "sessionId (trackEvent ty md s) = sessionId s"
proof -
  define s2 where "s2 = updateActivity (s\<lparr>uuids := Suc (uuids s),
     eventQueue := eventQueue s @ [new_event ty md s],
     enqueued := enqueued s @ [new_event ty md s]\<rparr>)"
  have t: "trackEvent ty md s = (if \<not> isProcessing s2 then processQueue s2 else s2)"
    using assms(1) by (simp add: trackEvent_def Let_def s2_def new_event_def)
  have s2: "loop_ok s2" "truthy (sessionId s2)" "in_hand s2 = in_hand s @ [new_event ty md s]"
    "eventStore s2 = eventStore s" "enqueued s2 = enqueued s @ [new_event ty md s]"
    "sessionId s2 = sessionId s"
    using assms
    by (simp_all add: s2_def updateActivity_def resetIdleTimer_def loop_ok_iff in_hand_def)
  show "loop_ok (trackEvent ty md s)"
    "in_hand (trackEvent ty md s) = in_hand s @ [new_event ty md s]"
    "eventStore (trackEvent ty md s) = eventStore s"
    "enqueued (trackEvent ty md s) = enqueued s @ [new_event ty md s]"
    "sessionId (trackEvent ty md s) = sessionId s"
    using processQueue_sound[OF s2(1) s2(2)] s2 by (simp_all add: t)
qed

lemma advancesI:
  "eventStore s' = eventStore s @ X \<Longrightarrow> enqueued s' = enqueued s @ Y \<Longrightarrow>
   map event_of X @ in_hand s' = in_hand s @ Y \<Longrightarrow> advances s s'"
  unfolding advances_def by blast

lemma no_orphans_truthy: "truthy (sessionId s) \<Longrightarrow> no_orphans s"
  by (simp add: no_orphans_def)

lemma trackEvent_step:
  assumes "sound s"
  shows "sound (trackEvent ty md s)" "advances s (trackEvent ty md s)"
    "sessionId (trackEvent ty md s) = sessionId s"
proof -
  have "sound (trackEvent ty md s) \<and> advances s (trackEvent ty md s) \<and>
    sessionId (trackEvent ty md s) = sessionId s"
  proof (cases "truthy (sessionId s)")
    case False
    then show ?thesis
      using assms by (simp add: trackEvent_falsy advances_refl)
  next
    case True
    have l: "loop_ok s" using assms by (simp add: sound_def)
    note f = trackEvent_truthy[OF True l, of ty md]
    have "sound (trackEvent ty md s)"
      using f(1) f(5) True by (simp add: sound_def no_orphans_truthy)
    moreover have "advances s (trackEvent ty md s)"
      by (rule advancesI[of _ _ "[]" "[new_event ty md s]"]) (simp_all add: f)
    ultimately show ?thesis using f(5) by simp
  qed
  then show "sound (trackEvent ty md s)" "advances s (trackEvent ty md s)"
    "sessionId (trackEvent ty md s) = sessionId s"
    by simp_all
qed

lemma trackEvents_step:
  "sound s \<Longrightarrow> sound (trackEvents calls s) \<and> advances s (trackEvents calls s) \<and>
     sessionId (trackEvents calls s) = sessionId s"
proof (induction calls arbitrary: s)
  case Nil
  then show ?case by (simp add: advances_refl)
next
  case (Cons call calls)
  obtain ty md where c: "call = (ty, md)" by (cases call)
  note f = trackEvent_step[OF Cons.prems, of ty md]
  from Cons.IH[OF f(1)] f(2) f(3) show ?case
    by (auto simp: c intro: advances_trans)
qed

lemma resolved_step:
  assumes "sound s"
  shows "sound (logEvent_resolved s)" "advances s (logEvent_resolved s)"
proof -
  have "sound (logEvent_resolved s) \<and> advances s (logEvent_resolved s)"
  proof (cases "inflight s")
    case None
    then show ?thesis
      using assms by (simp add: logEvent_resolved_def advances_refl)
  next
    case (Some call)
    obtain e r where call: "call = (e, r)" by (cases call)
    define t where "t = s\<lparr>eventStore := eventStore s @ [r], inflight := None\<rparr>"
    have i: "isProcessing s" "event_of r = e" "truthy (sessionId s)"
      using assms Some call by (auto simp: sound_def loop_ok_def no_orphans_def)
    have t: "inflight t = None" "isProcessing t" "truthy (sessionId t)"
      "eventStore t = eventStore s @ [r]" "enqueued t = enqueued s"
      "in_hand t = eventQueue s" "sessionId t = sessionId s"
      using i by (simp_all add: t_def in_hand_def)
    have p: "logEvent_resolved s = run_loop t"
      using Some call by (simp add: logEvent_resolved_def t_def)
    note f = run_loop_sound[OF t(1) t(2)]
    have "sound (logEvent_resolved s)"
      using f(1) f(2) by (simp add: p sound_def)
    have h: "in_hand s = e # eventQueue s" using Some call by (simp add: in_hand_def)
    have "advances s (logEvent_resolved s)"
      by (rule advancesI[of _ _ "[r]" "[]"]) (simp_all add: p f t i h)
    with \<open>sound (logEvent_resolved s)\<close> show ?thesis by simp
  qed
  then show "sound (logEvent_resolved s)" "advances s (logEvent_resolved s)"
    by simp_all
qed

lemma rejected_step:
  assumes "sound s"
  shows "sound (logEvent_rejected s)" "advances s (logEvent_rejected s)"
proof -
  have "sound (logEvent_rejected s) \<and> advances s (logEvent_rejected s)"
  proof (cases "inflight s")
    case None
    then show ?thesis
      using assms by (simp add: logEvent_rejected_def advances_refl)
  next
    case (Some call)
    obtain e r where call: "call = (e, r)" by (cases call)
    have i: "truthy (sessionId s)"
      using assms Some by (auto simp: sound_def no_orphans_def)
    have p: "logEvent_rejected s =
        s\<lparr>eventQueue := e # eventQueue s, inflight := None, isProcessing := False\<rparr>"
      using Some call by (simp add: logEvent_rejected_def)
    have "sound (logEvent_rejected s)"
      using i by (simp add: p sound_def loop_ok_def no_orphans_def)
    moreover have "advances s (logEvent_rejected s)"
      by (rule advancesI[of _ _ "[]" "[]"]) (simp_all add: p in_hand_def Some call)
    ultimately show ?thesis by simp
  qed
  then show "sound (logEvent_rejected s)" "advances s (logEvent_rejected s)"
    by simp_all
qed

lemma frame_step:
  assumes "sound s" "inflight s' = inflight s" "isProcessing s' = isProcessing s"
    "eventQueue s' = eventQueue s" "eventStore s' = eventStore s" "enqueued s' = enqueued s"
    "truthy (sessionId s) \<Longrightarrow> truthy (sessionId s')"
  shows "sound s'" "advances s s'"
proof -
  show "sound s'"
    using assms by (auto simp: sound_def loop_ok_iff no_orphans_def)
  show "advances s s'"
    by (rule advancesI[of _ _ "[]" "[]"]) (simp_all add: assms in_hand_def)
qed

lemma idle_timeout_step:
  assumes "sound s"
  shows "sound (idle_timeout s)" "advances s (idle_timeout s)"
proof -
  have "sound (idle_timeout s) \<and> advances s (idle_timeout s)"
  proof (cases "\<exists>deadline. idleTimer s = Some deadline \<and> deadline \<le> clock s")
    case False
    then show ?thesis
      using assms by (auto simp: idle_timeout_def advances_refl split: option.splits)
  next
    case True
    define t where "t = s\<lparr>idleTimer := None\<rparr>"
    have t: "sound t" "advances s t"
      using frame_step[OF assms, of t] by (simp_all add: t_def)
    have p: "idle_timeout s = trackEvent ''IDLE_GAP''
        [(''idle_duration'', Num (int (clock s) - int (lastActivityTime s)))] t"
      using True by (auto simp: idle_timeout_def t_def)
    have "sound (idle_timeout s)" using trackEvent_step(1)[OF t(1)] by (simp add: p)
    moreover have "advances s (idle_timeout s)"
      using advances_trans[OF t(2) trackEvent_step(2)[OF t(1)]] by (simp add: p)
    ultimately show ?thesis by simp
  qed
  then show "sound (idle_timeout s)" "advances s (idle_timeout s)"
    by simp_all
qed

lemma step_sound:
  assumes "sound s" "keeps_session a"
  shows "sound (step a s) \<and> advances s (step a s)"
proof (cases a)
  case (Initialize sid)
  then have "sid \<noteq> []" using assms(2) by simp
  then show ?thesis
    using frame_step[OF assms(1), of "initialize sid s"]
    by (simp add: Initialize initialize_def startIdleTracking_def resetIdleTimer_def truthy_def)
next
  case (TrackEvent ty md)
  then show ?thesis using trackEvent_step[OF assms(1)] by simp
next
  case (TrackSQLComplexity query)
  obtain c where "trackSQLComplexity query s = (Inr c, trackEvents (emit c query) s)"
    using trackSQLComplexity_eq by blast
  then show ?thesis using trackEvents_step[OF assms(1)] TrackSQLComplexity by simp
next
  case Cleanup
  then show ?thesis using assms(2) by simp
next
  case Resolved
  then show ?thesis using resolved_step[OF assms(1)] by simp
next
  case Rejected
  then show ?thesis using rejected_step[OF assms(1)] by simp
next
  case (Elapse d)
  then show ?thesis using frame_step[OF assms(1), of "s\<lparr>clock := clock s + d\<rparr>"] by simp
next
  case IdleTimeout
  then show ?thesis using idle_timeout_step[OF assms(1)] by simp
qed

lemma run_sound:
  "sound s \<Longrightarrow> \<forall>a\<in>set as. keeps_session a \<Longrightarrow> sound (run as s) \<and> advances s (run as s)"
proof (induction as arbitrary: s)
  case Nil
  then show ?case by (simp add: advances_refl)
next
  case (Cons a as)
  have a: "sound (step a s)" "advances s (step a s)"
    using step_sound[of s a] Cons.prems by simp_all
  have "sound (run as (step a s)) \<and> advances (step a s) (run as (step a s))"
    using Cons.IH[OF a(1)] Cons.prems(2) by simp
  then show ?case using a(2) by (auto intro: advances_trans)
qed

lemma sound_init: "sound (init t)"
  by (simp add: sound_def loop_ok_def no_orphans_def init_def)


section \<open>What the operations leave unchanged\<close>

lemma run_loop_frame:
  "enqueued (run_loop s) = enqueued s" "sessionId (run_loop s) = sessionId s"
  "clock (run_loop s) = clock s" "idleTimer (run_loop s) = idleTimer s"
  "lastActivityTime (run_loop s) = lastActivityTime s" "uuids (run_loop s) = uuids s"
  "eventStore (run_loop s) = eventStore s"
  by (cases s rule: run_loop_cases; simp)+

lemma processQueue_frame:
  "enqueued (processQueue s) = enqueued s" "sessionId (processQueue s) = sessionId s"
  "clock (processQueue s) = clock s" "idleTimer (processQueue s) = idleTimer s"
  "lastActivityTime (processQueue s) = lastActivityTime s" "uuids (processQueue s) = uuids s"
  "eventStore (processQueue s) = eventStore s"
  by (simp_all add: processQueue_def run_loop_frame)

lemma trackEvent_frame:
  assumes "truthy (sessionId s)"
  shows "enqueued (trackEvent ty md s) = enqueued s @ [new_event ty md s]"
    "sessionId (trackEvent ty md s) = sessionId s"
    "clock (trackEvent ty md s) = clock s"
    "idleTimer (trackEvent ty md s) = Some (clock s + idleThreshold)"
    "lastActivityTime (trackEvent ty md s) = clock s"
    "eventStore (trackEvent ty md s) = eventStore s"
  using assms
  by (simp_all add: trackEvent_def Let_def processQueue_frame updateActivity_def
      resetIdleTimer_def new_event_def)

lemma map_of_assign:
  "map_of (assign k v m) k' = (if k' = k then Some v else map_of m k')"
  by (induction m) auto

lemma trackEvents_enqueued:
  "truthy (sessionId s) \<Longrightarrow>
   \<exists>es. enqueued (trackEvents calls s) = enqueued s @ es \<and> map etype es = map fst calls \<and>
     map (\<lambda>e. map_of (event_metadata e) ''query_snippet'') es
       = map (\<lambda>(ty, md). map_of md ''query_snippet'') calls"
proof (induction calls arbitrary: s)
  case Nil
  then show ?case by simp
next
  case (Cons call calls)
  obtain ty md where c: "call = (ty, md)" by (cases call)
  note f = trackEvent_frame[OF Cons.prems, of ty md]
  have "truthy (sessionId (trackEvent ty md s))" using Cons.prems f(2) by simp
  from Cons.IH[OF this] obtain es where
    es: "enqueued (trackEvents calls (trackEvent ty md s)) = enqueued (trackEvent ty md s) @ es"
      "map etype es = map fst calls"
      "map (\<lambda>e. map_of (event_metadata e) ''query_snippet'') es
         = map (\<lambda>(ty, md). map_of md ''query_snippet'') calls"
    by blast
  have "enqueued (trackEvents (call # calls) s) = enqueued s @ (new_event ty md s # es)"
    using es(1) f(1) by (simp add: c)
  moreover have "map etype (new_event ty md s # es) = map fst (call # calls)"
    using es(2) by (simp add: c new_event_def)
  moreover have "map (\<lambda>e. map_of (event_metadata e) ''query_snippet'') (new_event ty md s # es)
      = map (\<lambda>(ty, md). map_of md ''query_snippet'') (call # calls)"
    using es(3) by (simp add: c new_event_def map_of_assign)
  ultimately show ?case by blast
qed

lemma emit_snippets:
  "map (\<lambda>(ty, md). map_of md ''query_snippet'') (emit c query)
     = replicate (length (emit c query)) (Some (Str (take 100 query)))"
  by (simp add: emit_def Let_def substring0_def)

section \<open>Order and uniqueness in arbitrary runs\<close>

lemma progressesI:
  "eventStore s' = eventStore s @ X \<Longrightarrow> enqueued s' = enqueued s @ Y \<Longrightarrow>
   subseq (map event_of X @ in_hand s') (in_hand s @ Y) \<Longrightarrow> progresses s s'"
  unfolding progresses_def by blast

lemma advances_progresses: "advances s s' \<Longrightarrow> progresses s s'"
  unfolding advances_def progresses_def by (metis subseq_order.order_refl)

lemma progresses_refl: "progresses s s"
  by (rule advances_progresses) (rule advances_refl)

lemma progresses_trans: "progresses s s' \<Longrightarrow> progresses s' s'' \<Longrightarrow> progresses s s''"
proof -
  assume "progresses s s'" "progresses s' s''"
  then obtain X Y X' Y' where
    a: "eventStore s' = eventStore s @ X" "enqueued s' = enqueued s @ Y"
       "subseq (map event_of X @ in_hand s') (in_hand s @ Y)" and
    b: "eventStore s'' = eventStore s' @ X'" "enqueued s'' = enqueued s' @ Y'"
       "subseq (map event_of X' @ in_hand s'') (in_hand s' @ Y')"
    unfolding progresses_def by blast
  have "subseq (map event_of X @ (map event_of X' @ in_hand s''))
      (map event_of X @ (in_hand s' @ Y'))"
    using b(3) by (rule list_emb_append_mono[OF subseq_order.order_refl])
  moreover have "subseq ((map event_of X @ in_hand s') @ Y') ((in_hand s @ Y) @ Y')"
    using a(3) by (rule list_emb_append_mono[OF _ subseq_order.order_refl])
  ultimately have "subseq (map event_of (X @ X') @ in_hand s'') (in_hand s @ (Y @ Y'))"
    using subseq_order.order_trans by fastforce
  moreover have "eventStore s'' = eventStore s @ (X @ X')" using a(1) b(1) by simp
  moreover have "enqueued s'' = enqueued s @ (Y @ Y')" using a(2) b(2) by simp
  ultimately show ?thesis by (rule progressesI[rotated 2])
qed

lemma run_loop_weak:
  assumes "inflight s = None" "isProcessing s"
  shows "subseq (in_hand (run_loop s)) (in_hand s)"
  using assms by (cases s rule: run_loop_cases) (auto simp: in_hand_def)

lemma trackEvent_weak:
  assumes "loop_ok s"
  shows "loop_ok (trackEvent ty md s) \<and> progresses s (trackEvent ty md s)"
proof (cases "truthy (sessionId s)")
  case False
  then show ?thesis using assms by (simp add: trackEvent_falsy progresses_refl)
next
  case True
  note f = trackEvent_truthy[OF True assms, of ty md]
  have "advances s (trackEvent ty md s)"
    by (rule advancesI[of _ _ "[]" "[new_event ty md s]"]) (simp_all add: f)
  then show ?thesis using f(1) by (simp add: advances_progresses)
qed

lemma trackEvents_weak:
  "loop_ok s \<Longrightarrow> loop_ok (trackEvents calls s) \<and> progresses s (trackEvents calls s)"
proof (induction calls arbitrary: s)
  case Nil
  then show ?case by (simp add: progresses_refl)
next
  case (Cons call calls)
  obtain ty md where c: "call = (ty, md)" by (cases call)
  have f: "loop_ok (trackEvent ty md s)" "progresses s (trackEvent ty md s)"
    using trackEvent_weak[OF Cons.prems, of ty md] by simp_all
  from Cons.IH[OF f(1)] f(2) show ?case
    by (auto simp: c intro: progresses_trans)
qed

lemma resolved_weak:
  assumes "loop_ok s"
  shows "loop_ok (logEvent_resolved s) \<and> progresses s (logEvent_resolved s)"
proof (cases "inflight s")
  case None
  then show ?thesis using assms by (simp add: logEvent_resolved_def progresses_refl)
next
  case (Some call)
  obtain e r where call: "call = (e, r)" by (cases call)
  define t where "t = s\<lparr>eventStore := eventStore s @ [r], inflight := None\<rparr>"
  have i: "isProcessing s" "event_of r = e"
    using assms Some call by (auto simp: loop_ok_def)
  have t: "inflight t = None" "isProcessing t"
    "eventStore t = eventStore s @ [r]" "enqueued t = enqueued s" "in_hand t = eventQueue s"
    using i by (simp_all add: t_def in_hand_def)
  have p: "logEvent_resolved s = run_loop t"
    using Some call by (simp add: logEvent_resolved_def t_def)
  note f = run_loop_sound[OF t(1) t(2)]
  have h: "in_hand s = e # eventQueue s" using Some call by (simp add: in_hand_def)
  have "subseq (in_hand (run_loop t)) (eventQueue s)"
    using run_loop_weak[OF t(1) t(2)] by (simp add: t)
  then have "progresses s (logEvent_resolved s)"
    by (intro progressesI[of _ _ "[r]" "[]"]) (simp_all add: p f t i h)
  then show ?thesis using f(1) by (simp add: p)
qed

lemma rejected_weak:
  assumes "loop_ok s"
  shows "loop_ok (logEvent_rejected s) \<and> progresses s (logEvent_rejected s)"
proof (cases "inflight s")
  case None
  then show ?thesis using assms by (simp add: logEvent_rejected_def progresses_refl)
next
  case (Some call)
  obtain e r where call: "call = (e, r)" by (cases call)
  have p: "logEvent_rejected s =
      s\<lparr>eventQueue := e # eventQueue s, inflight := None, isProcessing := False\<rparr>"
    using Some call by (simp add: logEvent_rejected_def)
  have "advances s (logEvent_rejected s)"
    by (rule advancesI[of _ _ "[]" "[]"]) (simp_all add: p in_hand_def Some call)
  then show ?thesis by (simp add: advances_progresses) (simp add: p loop_ok_def)
qed

lemma frame_weak:
  assumes "loop_ok s" "inflight s' = inflight s" "isProcessing s' = isProcessing s"
    "eventQueue s' = eventQueue s \<or> eventQueue s' = []"
    "eventStore s' = eventStore s" "enqueued s' = enqueued s"
  shows "loop_ok s' \<and> progresses s s'"
proof -
  have "loop_ok s'" using assms(1,2,3) by (simp add: loop_ok_iff)
  moreover have "subseq (in_hand s') (in_hand s)"
    using assms(2,4) by (auto simp: in_hand_def)
  then have "progresses s s'"
    by (intro progressesI[of _ _ "[]" "[]"]) (simp_all add: assms)
  ultimately show ?thesis by simp
qed

lemma idle_timeout_weak:
  assumes "loop_ok s"
  shows "loop_ok (idle_timeout s) \<and> progresses s (idle_timeout s)"
proof (cases "\<exists>deadline. idleTimer s = Some deadline \<and> deadline \<le> clock s")
  case False
  then show ?thesis
    using assms by (auto simp: idle_timeout_def progresses_refl split: option.splits)
next
  case True
  define t where "t = s\<lparr>idleTimer := None\<rparr>"
  have t: "loop_ok t" "progresses s t"
    using frame_weak[OF assms, of t] by (simp_all add: t_def)
  have p: "idle_timeout s = trackEvent ''IDLE_GAP''
      [(''idle_duration'', Num (int (clock s) - int (lastActivityTime s)))] t"
    using True by (auto simp: idle_timeout_def t_def)
  show ?thesis
    using trackEvent_weak[OF t(1)] t(2) by (auto simp: p intro: progresses_trans)
qed

lemma step_weak:
  assumes "loop_ok s"
  shows "loop_ok (step a s) \<and> progresses s (step a s)"
proof (cases a)
  case (Initialize sid)
  then show ?thesis
    using frame_weak[OF assms, of "initialize sid s"]
    by (simp add: initialize_def startIdleTracking_def resetIdleTimer_def)
next
  case (TrackEvent ty md)
  then show ?thesis using trackEvent_weak[OF assms] by simp
next
  case (TrackSQLComplexity query)
  obtain c where "trackSQLComplexity query s = (Inr c, trackEvents (emit c query) s)"
    using trackSQLComplexity_eq by blast
  then show ?thesis using trackEvents_weak[OF assms] TrackSQLComplexity by simp
next
  case Cleanup
  then show ?thesis using frame_weak[OF assms, of "cleanup s"] by (simp add: cleanup_def)
next
  case Resolved
  then show ?thesis using resolved_weak[OF assms] by simp
next
  case Rejected
  then show ?thesis using rejected_weak[OF assms] by simp
next
  case (Elapse d)
  then show ?thesis using frame_weak[OF assms, of "s\<lparr>clock := clock s + d\<rparr>"] by simp
next
  case IdleTimeout
  then show ?thesis using idle_timeout_weak[OF assms] by simp
qed

lemma run_weak: "loop_ok s \<Longrightarrow> loop_ok (run as s) \<and> progresses s (run as s)"
proof (induction as arbitrary: s)
  case Nil
  then show ?case by (simp add: progresses_refl)
next
  case (Cons a as)
  have a: "loop_ok (step a s)" "progresses s (step a s)"
    using step_weak[OF Cons.prems, of a] by simp_all
  from Cons.IH[OF a(1)] a(2) show ?case by (auto intro: progresses_trans)
qed

lemma in_order_from_init:
  "subseq (delivered (run as (init t)) @ in_hand (run as (init t))) (enqueued (run as (init t)))"
proof -
  have "loop_ok (init t)" by (simp add: init_def loop_ok_def)
  then have "progresses (init t) (run as (init t))" using run_weak by blast
  then show ?thesis
    by (auto simp: progresses_def delivered_def init_def in_hand_def)
qed

lemma subseq_keeps_distinct: "subseq xs ys \<Longrightarrow> distinct ys \<Longrightarrow> distinct xs"
proof (induction rule: list_emb.induct)
  case (list_emb_Nil ys)
  then show ?case by simp
next
  case (list_emb_Cons xs ys y)
  then show ?case by simp
next
  case (list_emb_Cons2 x y xs ys)
  then have "x \<notin> set xs" by (auto dest: list_emb_set)
  then show ?case using list_emb_Cons2 by simp
qed

lemma client_no_new_event: "client_no (new_event ty md s) = Some (uuids s)"
  by (simp add: client_no_def new_event_def map_of_assign)

lemma fresh_ids_frame:
  "fresh_ids s \<Longrightarrow> enqueued s' = enqueued s \<Longrightarrow> uuids s' = uuids s \<Longrightarrow> fresh_ids s'"
  by (auto simp: fresh_ids_def list_all_iff split: option.splits)

lemma trackEvent_uuids:
  "truthy (sessionId s) \<Longrightarrow> uuids (trackEvent ty md s) = Suc (uuids s)"
  by (simp add: trackEvent_def Let_def processQueue_frame updateActivity_def resetIdleTimer_def)

lemma trackEvent_fresh: assumes "fresh_ids s" shows "fresh_ids (trackEvent ty md s)"
proof (cases "truthy (sessionId s)")
  case False
  then show ?thesis using assms by (simp add: trackEvent_falsy)
next
  case True
  have b: "\<forall>e\<in>set (enqueued s). \<exists>n. client_no e = Some n \<and> n < uuids s"
    using assms by (auto simp: fresh_ids_def list_all_iff split: option.splits)
  then have "Some (uuids s) \<notin> client_no ` set (enqueued s)" by force
  then show ?thesis
    using assms b
    by (auto simp: fresh_ids_def trackEvent_frame(1)[OF True] trackEvent_uuids[OF True]
        client_no_new_event list_all_iff split: option.splits)
qed

lemma trackEvents_fresh: "fresh_ids s \<Longrightarrow> fresh_ids (trackEvents calls s)"
  by (induction calls arbitrary: s) (auto simp: trackEvent_fresh)

lemma step_fresh: assumes "fresh_ids s" shows "fresh_ids (step a s)"
proof (cases a)
  case (Initialize sid)
  then show ?thesis
    using fresh_ids_frame[OF assms, of "initialize sid s"]
    by (simp add: initialize_def startIdleTracking_def resetIdleTimer_def)
next
  case (TrackEvent ty md)
  then show ?thesis using trackEvent_fresh[OF assms] by simp
next
  case (TrackSQLComplexity query)
  obtain c where "trackSQLComplexity query s = (Inr c, trackEvents (emit c query) s)"
    using trackSQLComplexity_eq by blast
  then show ?thesis using trackEvents_fresh[OF assms] TrackSQLComplexity by simp
next
  case Cleanup
  then show ?thesis using fresh_ids_frame[OF assms, of "cleanup s"] by (simp add: cleanup_def)
next
  case Resolved
  then show ?thesis
    using fresh_ids_frame[OF assms, of "logEvent_resolved s"]
    by (simp add: logEvent_resolved_def run_loop_frame split: option.splits)
next
  case Rejected
  then show ?thesis
    using fresh_ids_frame[OF assms, of "logEvent_rejected s"]
    by (simp add: logEvent_rejected_def split: option.splits)
next
  case (Elapse d)
  then show ?thesis using fresh_ids_frame[OF assms, of "s\<lparr>clock := clock s + d\<rparr>"] by simp
next
  case IdleTimeout
  have "fresh_ids (s\<lparr>idleTimer := None\<rparr>)"
    using fresh_ids_frame[OF assms, of "s\<lparr>idleTimer := None\<rparr>"] by simp
  then show ?thesis
    using assms by (simp add: IdleTimeout idle_timeout_def trackEvent_fresh split: option.splits)
qed

lemma run_fresh: "fresh_ids s \<Longrightarrow> fresh_ids (run as s)"
  by (induction as arbitrary: s) (auto simp: step_fresh)

lemma enqueued_distinct: "distinct (enqueued (run as (init t)))"
proof -
  have "fresh_ids (init t)" by (simp add: fresh_ids_def init_def)
  then have "fresh_ids (run as (init t))" by (rule run_fresh)
  then show ?thesis by (simp add: fresh_ids_def distinct_map)
qed

lemma delivered_distinct: "distinct (delivered (run as (init t)))"
  using subseq_keeps_distinct[OF in_order_from_init enqueued_distinct, of as t] by simp

section \<open>The idle timer and a re-bound queue\<close>

lemma trackEvent_time_ok: assumes "time_ok s" shows "time_ok (trackEvent ty md s)"
proof (cases "truthy (sessionId s)")
  case False
  then show ?thesis using assms by (simp add: trackEvent_falsy)
next
  case True
  show ?thesis by (simp add: time_ok_def trackEvent_frame[OF True])
qed

lemma trackEvents_time_ok: "time_ok s \<Longrightarrow> time_ok (trackEvents calls s)"
  by (induction calls arbitrary: s) (auto simp: trackEvent_time_ok)

lemma time_ok_frame:
  "time_ok s \<Longrightarrow> lastActivityTime s' = lastActivityTime s \<Longrightarrow> clock s \<le> clock s' \<Longrightarrow>
   idleTimer s' = idleTimer s \<or> idleTimer s' = None \<or> idleTimer s' = Some (clock s' + idleThreshold)
   \<Longrightarrow> time_ok s'"
  by (auto simp: time_ok_def split: option.splits)

lemma step_time_ok: assumes "time_ok s" shows "time_ok (step a s)"
proof (cases a)
  case (Initialize sid)
  then show ?thesis
    using time_ok_frame[OF assms, of "initialize sid s"]
    by (simp add: initialize_def startIdleTracking_def resetIdleTimer_def)
next
  case (TrackEvent ty md)
  then show ?thesis using trackEvent_time_ok[OF assms] by simp
next
  case (TrackSQLComplexity query)
  obtain c where "trackSQLComplexity query s = (Inr c, trackEvents (emit c query) s)"
    using trackSQLComplexity_eq by blast
  then show ?thesis using trackEvents_time_ok[OF assms] TrackSQLComplexity by simp
next
  case Cleanup
  then show ?thesis using time_ok_frame[OF assms, of "cleanup s"] by (simp add: cleanup_def)
next
  case Resolved
  then show ?thesis
    using time_ok_frame[OF assms, of "logEvent_resolved s"]
    by (simp add: logEvent_resolved_def run_loop_frame split: option.splits)
next
  case Rejected
  then show ?thesis
    using time_ok_frame[OF assms, of "logEvent_rejected s"]
    by (simp add: logEvent_rejected_def split: option.splits)
next
  case (Elapse d)
  then show ?thesis using time_ok_frame[OF assms, of "s\<lparr>clock := clock s + d\<rparr>"] by simp
next
  case IdleTimeout
  have "time_ok (s\<lparr>idleTimer := None\<rparr>)"
    using time_ok_frame[OF assms, of "s\<lparr>idleTimer := None\<rparr>"] by simp
  then show ?thesis
    using assms by (simp add: IdleTimeout idle_timeout_def trackEvent_time_ok split: option.splits)
qed

lemma run_time_ok: "time_ok s \<Longrightarrow> time_ok (run as s)"
  by (induction as arbitrary: s) (auto simp: step_time_ok)

lemma time_ok_from_init: "time_ok (run as (init t))"
  by (rule run_time_ok) (simp add: time_ok_def init_def)

lemma deadline_after_activity:
  "idleTimer (run as (init t)) = Some d \<Longrightarrow>
   lastActivityTime (run as (init t)) + idleThreshold \<le> d"
  using time_ok_from_init[of as t] by (simp add: time_ok_def)


section \<open>Ordering of deliveries\<close>

lemmas run_eval = init_def truthy_def resetIdleTimer_def updateActivity_def
  startIdleTracking_def initialize_def run_loop_def processQueue_def trackEvent_def
  logEvent_resolved_def logEvent_rejected_def idle_timeout_def cleanup_def idleThreshold_def
  Let_def

text \<open>
  Claim C1. Start from a fresh tracker and let any sequence of method calls, delivery
  outcomes, clock advances and idle timeouts happen. The events accepted by the store,
  followed by the event whose delivery is awaited (if any), followed by the queue, always
  form a subsequence of the enqueued events, which are pairwise distinct: events reach the
  store in the order of their enqueuing, whatever deliveries failed. As long as
  \<^verbatim>\<open>cleanup\<close> is not called and no empty session id is bound, nothing is discarded
  either: store, awaited event and queue together are exactly the enqueued events, so the
  store holds a prefix of them (strictly first in, first out).
\<close>

theorem delivery_is_fifo:
  "subseq (delivered (run as (init t)) @ in_hand (run as (init t))) (enqueued (run as (init t))) \<and>
   distinct (enqueued (run as (init t))) \<and>
   (list_all keeps_session as \<longrightarrow>
      delivered (run as (init t)) @ in_hand (run as (init t)) = enqueued (run as (init t)))"
proof -
  have "delivered (run as (init t)) @ in_hand (run as (init t)) = enqueued (run as (init t))"
    if "list_all keeps_session as"
  proof -
    have "\<forall>a\<in>set as. keeps_session a" using that by (simp add: list_all_iff)
    then have "advances (init t) (run as (init t))"
      using run_sound[OF sound_init] by simp
    then show ?thesis
      by (auto simp: advances_def delivered_def init_def in_hand_def)
  qed
  then show ?thesis
    using in_order_from_init[of as t] enqueued_distinct[of as t] by simp
qed

theorem delivery_is_fifo_witness:
  "list_all keeps_session retry_scenario \<and>
   delivered (run retry_scenario (init 0)) @ in_hand (run retry_scenario (init 0))
     = enqueued (run retry_scenario (init 0)) \<and>
   map event_type (eventStore (run retry_scenario (init 0)))
     = [''CODE_EDIT'', ''CODE_RUN'', ''SQL_RUN'']"
proof -
  have h: "list_all keeps_session retry_scenario"
    by (simp add: retry_scenario_def)
  have e: "map event_type (eventStore (run retry_scenario (init 0)))
      = [''CODE_EDIT'', ''CODE_RUN'', ''SQL_RUN'']"
    by (simp add: retry_scenario_def run_eval)
  show ?thesis using h delivery_is_fifo[of retry_scenario 0] e by blast
qed

section \<open>The classifier\<close>

text \<open>
  Claim C7. The tag computation returns a tag record for every text and never throws:
  its one operation that can throw, reading \<^verbatim>\<open>.length\<close> of the \<^verbatim>\<open>null\<close> that
  \<^verbatim>\<open>match\<close> gives when nothing matches, is guarded by \<^verbatim>\<open>|| []\<close>, so that no match
  counts as zero matches. The record returned by \<^verbatim>\<open>trackSQLComplexity\<close> is this record in
  every state of the tracker, also after any sequence of earlier calls, deliveries and
  timeouts. Each tag is true exactly when its pattern is present: the join, grouping and
  filter tags when the upper-cased text contains the keyword, the aggregate and window
  tags when it contains one of their keywords, the subquery tag when the keyword SELECT
  occurs more than once, case ignored; absence of the pattern gives false. On the empty
  text, and on the ill-formed text that is a lone surrogate, every tag is false.
\<close>

theorem classify_pure_total:
  "(\<exists>c. classify query = Inr c \<and>
      fst (trackSQLComplexity query s) = Inr c \<and>
      fst (trackSQLComplexity query (run as s)) = Inr c \<and>
      has_join c = sublist (utf16 ''JOIN'') (toUpperCase query) \<and>
      has_aggregate c =
        (sublist (utf16 ''COUNT'') (toUpperCase query) \<or>
         sublist (utf16 ''SUM'') (toUpperCase query) \<or>
         sublist (utf16 ''AVG'') (toUpperCase query) \<or>
         sublist (utf16 ''MAX'') (toUpperCase query) \<or>
         sublist (utf16 ''MIN'') (toUpperCase query)) \<and>
      has_subquery c = (1 < keyword_occurrences (utf16 ''SELECT'') query) \<and>
      has_groupby c = sublist (utf16 ''GROUP BY'') (toUpperCase query) \<and>
      has_where c = sublist (utf16 ''WHERE'') (toUpperCase query) \<and>
      has_window c =
        (sublist (utf16 ''OVER'') (toUpperCase query) \<or>
         sublist (utf16 ''PARTITION BY'') (toUpperCase query))) \<and>
   classify [] =
     Inr \<lparr> has_join = False, has_aggregate = False, has_subquery = False, has_groupby = False,
           has_where = False, has_window = False \<rparr> \<and>
   classify [0xD800] =
     Inr \<lparr> has_join = False, has_aggregate = False, has_subquery = False, has_groupby = False,
           has_where = False, has_window = False \<rparr>"
proof -
  have e: "classify [] =
     Inr \<lparr> has_join = False, has_aggregate = False, has_subquery = False, has_groupby = False,
           has_where = False, has_window = False \<rparr>"
    by (simp add: classify_eq toUpperCase_def utf16_def)
  obtain c where c: "classify query = Inr c" using classify_eq by blast
  have t: "fst (trackSQLComplexity query u) = Inr c" for u
    by (simp add: trackSQLComplexity_def c)
  have f: "has_join c = sublist (utf16 ''JOIN'') (toUpperCase query)"
    "has_aggregate c =
        (sublist (utf16 ''COUNT'') (toUpperCase query) \<or>
         sublist (utf16 ''SUM'') (toUpperCase query) \<or>
         sublist (utf16 ''AVG'') (toUpperCase query) \<or>
         sublist (utf16 ''MAX'') (toUpperCase query) \<or>
         sublist (utf16 ''MIN'') (toUpperCase query))"
    "has_subquery c = (1 < keyword_occurrences (utf16 ''SELECT'') query)"
    "has_groupby c = sublist (utf16 ''GROUP BY'') (toUpperCase query)"
    "has_where c = sublist (utf16 ''WHERE'') (toUpperCase query)"
    "has_window c =
        (sublist (utf16 ''OVER'') (toUpperCase query) \<or>
         sublist (utf16 ''PARTITION BY'') (toUpperCase query))"
    using c
    by (auto simp: classify_eq regex_test_iff str_includes_sublist matches_SELECT_gi_occurrences
        simp del: regex_test.simps str_includes.simps)
  show ?thesis
    using c t[of s] t[of "run as s"] f e classify_lone_surrogate by blast
qed

text \<open>
  Claim C8. On \<^verbatim>\<open>SELECT * FROM t\<close> every tag is false; on the join query of the
  specification (\<^const>\<open>join_query\<close>) the join, aggregate and grouping tags are true and the
  subquery tag is false.
\<close>

theorem classify_examples:
  "classify (utf16 ''SELECT * FROM t'') =
     Inr \<lparr> has_join = False, has_aggregate = False, has_subquery = False, has_groupby = False,
           has_where = False, has_window = False \<rparr> \<and>
   (\<exists>c. classify (utf16 join_query) = Inr c \<and>
      has_join c \<and> has_aggregate c \<and> has_groupby c \<and> \<not> has_subquery c)"
proof -
  have "classify (utf16 ''SELECT * FROM t'') =
     Inr \<lparr> has_join = False, has_aggregate = False, has_subquery = False, has_groupby = False,
           has_where = False, has_window = False \<rparr>"
    by (simp add: classify_eq q1_upper q1_matches) (simp add: utf16_def)
  moreover have "str_includes (toUpperCase (utf16 join_query)) (utf16 ''JOIN'')"
    by (simp add: q2_upper) (simp add: utf16_def)
  moreover have "str_includes (toUpperCase (utf16 join_query)) (utf16 ''GROUP BY'')"
    by (simp add: q2_upper) (simp add: utf16_def)
  moreover have "regex_test [utf16 ''COUNT'', utf16 ''SUM'', utf16 ''AVG'', utf16 ''MAX'',
               utf16 ''MIN''] (toUpperCase (utf16 join_query))"
    by (simp add: q2_upper) (simp add: utf16_def)
  ultimately show ?thesis
    by (simp add: classify_eq q2_matches)
qed

text \<open>
  Claim C9. The subquery tag is the count heuristic: it is true exactly when the text has
  more than one occurrence of the keyword SELECT, case ignored.
\<close>

theorem has_subquery_iff:
  "\<exists>c. classify query = Inr c \<and>
     (has_subquery c \<longleftrightarrow> 1 < keyword_occurrences (utf16 ''SELECT'') query)"
  by (simp add: classify_eq matches_SELECT_gi_occurrences)

section \<open>Events emitted by \<^verbatim>\<open>trackSQLComplexity\<close>\<close>

text \<open>
  Claim C6, as amended. For every input text the six conditional calls pass one event per
  positive tag, in the fixed order of \<^const>\<open>tag_events\<close>, each with the metadata
  \<^verbatim>\<open>{query_snippet: query.substring(0, 100)}\<close>. The excerpt has at most 100
  characters, and it is the full input text exactly when the input has at most 100
  characters. With a session bound, these events are the ones \<^verbatim>\<open>trackSQLComplexity\<close>
  enqueues, and each enqueued event carries the excerpt under \<^verbatim>\<open>query_snippet\<close>.
\<close>

theorem emit_one_event_per_tag:
  "(\<exists>c. classify query = Inr c \<and> fst (trackSQLComplexity query s) = Inr c \<and>
      map fst (emit c query) = map fst (filter (\<lambda>(ty, tag). tag c) tag_events) \<and>
      list_all (\<lambda>(ty, md). md = [(''query_snippet'', Str (take 100 query))]) (emit c query) \<and>
      (truthy (sessionId s) \<longrightarrow>
         map etype (drop (length (enqueued s)) (enqueued (snd (trackSQLComplexity query s))))
           = map fst (emit c query) \<and>
         map (\<lambda>e. map_of (event_metadata e) ''query_snippet'')
             (drop (length (enqueued s)) (enqueued (snd (trackSQLComplexity query s))))
           = replicate (length (emit c query)) (Some (Str (take 100 query))))) \<and>
   length (take 100 query) \<le> 100 \<and>
   (take 100 query = query \<longleftrightarrow> length query \<le> 100)"
proof -
  obtain c where c: "classify query = Inr c"
      "trackSQLComplexity query s = (Inr c, trackEvents (emit c query) s)"
    using trackSQLComplexity_eq by blast
  have "map etype (drop (length (enqueued s)) (enqueued (snd (trackSQLComplexity query s))))
        = map fst (emit c query) \<and>
      map (\<lambda>e. map_of (event_metadata e) ''query_snippet'')
          (drop (length (enqueued s)) (enqueued (snd (trackSQLComplexity query s))))
        = replicate (length (emit c query)) (Some (Str (take 100 query)))"
    if "truthy (sessionId s)"
  proof -
    from trackEvents_enqueued[OF that, of "emit c query"] obtain es where
      es: "enqueued (trackEvents (emit c query) s) = enqueued s @ es"
        "map etype es = map fst (emit c query)"
        "map (\<lambda>e. map_of (event_metadata e) ''query_snippet'') es
           = map (\<lambda>(ty, md). map_of md ''query_snippet'') (emit c query)"
      by blast
    then show ?thesis
      by (simp add: c(2) emit_snippets)
  qed
  then have "classify query = Inr c \<and> fst (trackSQLComplexity query s) = Inr c \<and>
      map fst (emit c query) = map fst (filter (\<lambda>(ty, tag). tag c) tag_events) \<and>
      list_all (\<lambda>(ty, md). md = [(''query_snippet'', Str (take 100 query))]) (emit c query) \<and>
      (truthy (sessionId s) \<longrightarrow>
         map etype (drop (length (enqueued s)) (enqueued (snd (trackSQLComplexity query s))))
           = map fst (emit c query) \<and>
         map (\<lambda>e. map_of (event_metadata e) ''query_snippet'')
             (drop (length (enqueued s)) (enqueued (snd (trackSQLComplexity query s))))
           = replicate (length (emit c query)) (Some (Str (take 100 query))))"
    using c emit_types[of c query] emit_metadata[of query c] by simp
  then show ?thesis
    using excerpt_full_iff[of query] by (intro conjI exI[of _ c]) simp_all
qed

theorem emit_one_event_per_tag_witness:
  "truthy (sessionId (initialize ''s1'' (init 0))) \<and>
   map etype (enqueued (snd (trackSQLComplexity (utf16 ''a JOIN b WHERE c'')
       (initialize ''s1'' (init 0)))))
     = [''TABLE_JOINED'', ''FILTER_APPLIED''] \<and>
   map (\<lambda>e. map_of (event_metadata e) ''query_snippet'')
       (enqueued (snd (trackSQLComplexity (utf16 ''a JOIN b WHERE c'')
          (initialize ''s1'' (init 0)))))
     = [Some (Str (utf16 ''a JOIN b WHERE c'')), Some (Str (utf16 ''a JOIN b WHERE c''))]"
proof -
  define q where "q = utf16 ''a JOIN b WHERE c''"
  define c0 where "c0 = \<lparr> has_join = True, has_aggregate = False, has_subquery = False,
     has_groupby = False, has_where = True, has_window = False \<rparr>"
  have t: "truthy (sessionId (initialize ''s1'' (init 0)))"
    by (simp add: run_eval)
  have n: "enqueued (initialize ''s1'' (init 0)) = []"
    by (simp add: run_eval)
  have k: "classify q = Inr c0"
    by (simp add: q_def c0_def classify_eq toUpperCase_ascii text_eval matches_SELECT_gi_skip
        matches_SELECT_gi_S del: matches_SELECT_gi.simps(2))
  have e: "map fst (emit c0 q) = [''TABLE_JOINED'', ''FILTER_APPLIED'']"
    by (simp add: emit_def c0_def Let_def)
  have l: "replicate (length (emit c0 q)) x = [x, x]" for x :: "jsval option"
    using arg_cong[OF e, of length] by (simp add: numeral_2_eq_2)
  have m: "take 100 q = q" by (simp add: q_def utf16_def)
  show ?thesis
    using emit_one_event_per_tag[of q "initialize ''s1'' (init 0)"] t
    by (simp add: n k e l m q_def[symmetric])
qed

text \<open>
  The claim as stated fails: for a text of at most 100 characters the excerpt is the full
  input text.
\<close>

theorem emit_excerpt_counterexample:
  "classify (utf16 ''a JOIN b'') =
     Inr \<lparr> has_join = True, has_aggregate = False, has_subquery = False, has_groupby = False,
           has_where = False, has_window = False \<rparr> \<and>
   emit \<lparr> has_join = True, has_aggregate = False, has_subquery = False, has_groupby = False,
          has_where = False, has_window = False \<rparr> (utf16 ''a JOIN b'')
     = [(''TABLE_JOINED'', [(''query_snippet'', Str (utf16 ''a JOIN b''))])]"
  by (simp add: classify_eq toUpperCase_ascii text_eval matches_SELECT_gi_skip
      matches_SELECT_gi_S emit_def del: matches_SELECT_gi.simps(2))

section \<open>A failed delivery and its retry\<close>

text \<open>
  Claim C2. Let the delivery of event \<open>e\<close> be awaited, under a bound session, and let it
  fail. Then \<open>e\<close> is back at the head of the queue and the store is unchanged. At the
  next \<^verbatim>\<open>trackEvent\<close> the loop's first attempt is \<open>e\<close> again; when that attempt succeeds the
  store has gained exactly one request, the one for \<open>e\<close>, and everything queued behind
  \<open>e\<close>, followed by the newly tracked event, is still in hand in its order. And in no
  run from a fresh tracker does the store hold an event twice. A rejected
  \<^verbatim>\<open>logEvent\<close> stands for a transport error: the store has not recorded the event.
\<close>

theorem failed_delivery_is_retried_once:
  assumes "loop_ok s" "sessionId s = Some sid" "sid \<noteq> []" "inflight s = Some (e, r)"
  shows "eventQueue (step Rejected s) = e # eventQueue s \<and>
    eventStore (step Rejected s) = eventStore s \<and>
    inflight (step Rejected s) = None \<and>
    inflight (run [Rejected, TrackEvent ty md] s) = Some (e, request_for sid e) \<and>
    eventStore (run [Rejected, TrackEvent ty md, Resolved] s)
      = eventStore s @ [request_for sid e] \<and>
    in_hand (run [Rejected, TrackEvent ty md, Resolved] s)
      = eventQueue s @ [new_event ty md s] \<and>
    distinct (delivered (run acts (init t0)))"
proof -
  define s1 where "s1 = logEvent_rejected s"
  have s1: "s1 = s\<lparr>eventQueue := e # eventQueue s, inflight := None, isProcessing := False\<rparr>"
    using assms(4) by (simp add: s1_def logEvent_rejected_def)
  have tr: "truthy (sessionId s)" using assms(2,3) by (simp add: truthy_def)
  define s2 where "s2 = trackEvent ty md s1"
  define u where "u = updateActivity (s1\<lparr>uuids := Suc (uuids s1),
     eventQueue := eventQueue s1 @ [new_event ty md s1],
     enqueued := enqueued s1 @ [new_event ty md s1]\<rparr>)\<lparr>isProcessing := True\<rparr>"
  have ne: "new_event ty md s1 = new_event ty md s"
    by (simp add: s1 new_event_def)
  have "s2 = run_loop u"
    using tr
    by (simp add: s2_def trackEvent_def Let_def processQueue_def u_def s1 new_event_def
        updateActivity_def resetIdleTimer_def)
  moreover have u: "truthy (sessionId u)" "the (sessionId u) = sid"
    "eventQueue u = e # (eventQueue s @ [new_event ty md s])"
    "eventStore u = eventStore s"
    using tr assms(2)
    by (simp_all add: u_def s1 new_event_def updateActivity_def resetIdleTimer_def)
  ultimately have s2: "s2 = u\<lparr>eventQueue := eventQueue s @ [new_event ty md s],
      inflight := Some (e, request_for sid e)\<rparr>"
    using run_loop_truthy_Cons[OF u(1) u(3)] by (simp add: u(2))
  define t where "t = s2\<lparr>eventStore := eventStore s2 @ [request_for sid e], inflight := None\<rparr>"
  have s3: "logEvent_resolved s2 = run_loop t"
    by (simp add: logEvent_resolved_def s2 t_def)
  have t: "inflight t = None" "isProcessing t" "truthy (sessionId t)"
    "eventStore t = eventStore s @ [request_for sid e]"
    "in_hand t = eventQueue s @ [new_event ty md s]"
    using u by (simp_all add: t_def s2 in_hand_def u_def)
  note f = run_loop_sound[OF t(1) t(2)]
  have "eventStore (logEvent_resolved s2) = eventStore s @ [request_for sid e]"
    "in_hand (logEvent_resolved s2) = eventQueue s @ [new_event ty md s]"
    using f(3)[OF t(3)] f(4) t by (simp_all add: s3)
  moreover have "inflight s2 = Some (e, request_for sid e)" by (simp add: s2)
  ultimately show ?thesis
    using delivered_distinct[of acts t0]
    by (simp add: s1_def[symmetric] s2_def[symmetric]) (simp add: s1)
qed

theorem failed_delivery_is_retried_once_witness:
  "loop_ok first_attempt \<and> sessionId first_attempt = Some ''s1'' \<and>
   map event_type (eventStore (run [Rejected, TrackEvent ''CODE_RUN'' [], Resolved] first_attempt))
     = [''CODE_EDIT''] \<and>
   map etype (in_hand (run [Rejected, TrackEvent ''CODE_RUN'' [], Resolved] first_attempt))
     = [''CODE_RUN'']"
proof -
  define e0 where "e0 = \<lparr> etype = ''CODE_EDIT'',
     event_metadata = [(''timestamp'', Instant 0), (''client_id'', Uuid 0)] \<rparr>"
  have a: "loop_ok first_attempt" "sessionId first_attempt = Some ''s1''" "''s1'' \<noteq> []"
    "inflight first_attempt = Some (e0, request_for ''s1'' e0)"
    "eventStore first_attempt = []" "eventQueue first_attempt = []"
    by (simp_all add: first_attempt_def e0_def run_eval loop_ok_def event_of_def request_for_def)
  show ?thesis
    using failed_delivery_is_retried_once[OF a(1) a(2) a(3) a(4), of "''CODE_RUN''" "[]"] a
    by (simp add: request_for_def e0_def new_event_def)
qed

section \<open>Binding a second session\<close>




section \<open>Idle detection\<close>

text \<open>
  Claim C4, as amended. The idle timeout tracks its \<^verbatim>\<open>IDLE_GAP\<close> event through
  \<^verbatim>\<open>trackEvent\<close>, like any other event. With a session bound, an expired timer enqueues
  one \<^verbatim>\<open>IDLE_GAP\<close> event, sets the activity clock to the current time and arms the timer
  again, one threshold (5000 ms) ahead; until that threshold has elapsed anew the timeout
  does nothing. In every run a pending timeout is due no earlier than one threshold after
  the activity clock. So \<^verbatim>\<open>IDLE_GAP\<close> events repeat while the candidate stays idle, each
  at least one threshold after the event tracked before it.
\<close>

theorem idle_timeout_rearms:
  assumes "truthy (sessionId s)" "idleTimer s = Some deadline" "deadline \<le> clock s"
  shows "enqueued (idle_timeout s) = enqueued s @
      [new_event ''IDLE_GAP''
         [(''idle_duration'', Num (int (clock s) - int (lastActivityTime s)))] s] \<and>
    lastActivityTime (idle_timeout s) = clock s \<and>
    idleTimer (idle_timeout s) = Some (clock s + idleThreshold) \<and>
    (\<forall>d. d < idleThreshold \<longrightarrow>
       idle_timeout (step (Elapse d) (idle_timeout s)) = step (Elapse d) (idle_timeout s)) \<and>
    (idleTimer (run acts (init t0)) = Some due \<longrightarrow>
       lastActivityTime (run acts (init t0)) + idleThreshold \<le> due)"
proof -
  define t where "t = s\<lparr>idleTimer := None\<rparr>"
  have p: "idle_timeout s = trackEvent ''IDLE_GAP''
      [(''idle_duration'', Num (int (clock s) - int (lastActivityTime s)))] t"
    using assms(2,3) by (simp add: idle_timeout_def t_def)
  have t: "truthy (sessionId t)" using assms(1) by (simp add: t_def)
  note f = trackEvent_frame[OF t, of "''IDLE_GAP''"
      "[(''idle_duration'', Num (int (clock s) - int (lastActivityTime s)))]"]
  have ne: "new_event ty md t = new_event ty md s" for ty md
    by (simp add: t_def new_event_def)
  have c: "clock t = clock s" "enqueued t = enqueued s" by (simp_all add: t_def)
  have "idle_timeout (step (Elapse d) (idle_timeout s)) = step (Elapse d) (idle_timeout s)"
    if "d < idleThreshold" for d
    using that f(3) f(4) by (simp add: idle_timeout_def[of "_\<lparr>clock := _\<rparr>"] p c)
  then show ?thesis
    using f(1) f(4) f(5) deadline_after_activity[of acts t0 due] by (simp add: p ne c)
qed

theorem idle_timeout_rearms_witness:
  "truthy (sessionId (run (take 4 idle_scenario) (init 0))) \<and>
   idleTimer (run (take 4 idle_scenario) (init 0)) = Some 5000 \<and>
   5000 \<le> clock (run (take 4 idle_scenario) (init 0)) \<and>
   lastActivityTime (idle_timeout (run (take 4 idle_scenario) (init 0))) = 5000 \<and>
   idleTimer (idle_timeout (run (take 4 idle_scenario) (init 0))) = Some 10000"
proof -
  have h: "truthy (sessionId (run (take 4 idle_scenario) (init 0)))"
    "idleTimer (run (take 4 idle_scenario) (init 0)) = Some 5000"
    "5000 \<le> clock (run (take 4 idle_scenario) (init 0))"
    "clock (run (take 4 idle_scenario) (init 0)) = 5000"
    by (simp_all add: idle_scenario_def run_eval)
  show ?thesis
    using idle_timeout_rearms[OF h(1) h(2) h(3)] h by (simp add: idleThreshold_def)
qed

theorem idle_gap_repeats_counterexample:
  "map event_type (eventStore (run idle_scenario (init 0)))
     = [''CODE_EDIT'', ''IDLE_GAP'', ''IDLE_GAP''] \<and>
   lastActivityTime (run (take 5 idle_scenario) (init 0)) = 5000 \<and>
   idleTimer (run (take 5 idle_scenario) (init 0)) = Some 10000"
  by (simp add: idle_scenario_def run_eval)


section \<open>Tracking without a session\<close>

text \<open>
  Claim C10. \<^verbatim>\<open>trackEvent\<close> on a tracker without a truthy session id changes nothing:
  no event is enqueued or delivered, and the queue, the activity clock and the timer are
  as before. This is the case for a fresh tracker and after \<^verbatim>\<open>cleanup()\<close>.
\<close>

theorem trackEvent_unbound_noop:
  "trackEvent ty md (init t) = init t \<and> trackEvent ty md (cleanup s) = cleanup s \<and>
   (\<not> truthy (sessionId s) \<longrightarrow> trackEvent ty md s = s)"
  by (simp add: trackEvent_falsy init_def cleanup_def truthy_def)

theorem trackEvent_unbound_noop_witness:
  "\<not> truthy (sessionId (run [Initialize ''s1'', TrackEvent ''CODE_EDIT'' [], Cleanup] (init 0))) \<and>
   trackEvent ''CODE_RUN'' [] (run [Initialize ''s1'', TrackEvent ''CODE_EDIT'' [], Cleanup] (init 0))
     = run [Initialize ''s1'', TrackEvent ''CODE_EDIT'' [], Cleanup] (init 0)"
proof -
  have h: "\<not> truthy (sessionId (run [Initialize ''s1'', TrackEvent ''CODE_EDIT'' [], Cleanup] (init 0)))"
    by (simp add: run_eval)
  show ?thesis
    using h trackEvent_unbound_noop[of "''CODE_RUN''" "[]" 0
        "run [Initialize ''s1'', TrackEvent ''CODE_EDIT'' [], Cleanup] (init 0)"]
    by blast
qed

section \<open>Submitting outside the coding phase\<close>

text \<open>
  Claim C5. \<^verbatim>\<open>submit\<close> in a phase other than \<open>coding\<close> fails with \<open>InvalidTransition\<close>
  and returns the session as it was: phase, \<open>submitted_at\<close> and the event log unchanged.
\<close>

theorem submit_rejected_outside_coding:
  "phase s \<noteq> coding \<Longrightarrow> submit now firstQuestion s = (Inl InvalidTransition, s)"
  by (simp add: submit_def)

theorem submit_rejected_outside_coding_witness:
  "phase \<lparr> phase = interview, submitted_at = Some 7, event_log = [(''PHASE_SUBMITTED'', [])] \<rparr> \<noteq> coding \<and>
   submit 9 (Some (utf16 ''Why?'')) \<lparr> phase = interview, submitted_at = Some 7, event_log = [(''PHASE_SUBMITTED'', [])] \<rparr>
     = (Inl InvalidTransition, \<lparr> phase = interview, submitted_at = Some 7, event_log = [(''PHASE_SUBMITTED'', [])] \<rparr>)"
  using submit_rejected_outside_coding[of "\<lparr> phase = interview, submitted_at = Some 7, event_log = [(''PHASE_SUBMITTED'', [])] \<rparr>" 9 "Some (utf16 ''Why?'')"]
  by simp



end
